theory Spec2Isabelle
  imports
    Complex_Main
    "HOL-Library.Word"
    "HOL-Library.Char_ord"
    "HOL-Library.List_Lexorder"
    "HOL-Library.Sublist"
begin

section \<open>The ranked leaderboard of gamifykit: leaderboard/skiplist.go\<close>

text \<open>
  The skip list of \<^verbatim>\<open>leaderboard/skiplist.go\<close> is a graph of heap nodes linked by
  pointers. The embedding keeps the pointers: a pointer is \<open>None\<close> (Go's \<^verbatim>\<open>nil\<close>) or
  the address of a heap cell, the heap is a function from addresses to nodes, and every
  dereference of \<^verbatim>\<open>nil\<close> and every array index out of range is a panic value.
  The inner search loop follows pointers until it meets \<^verbatim>\<open>nil\<close> or a larger entry;
  on a cyclic heap it never returns, so it is a partial function and "does not return"
  is the value \<open>None\<close>.
\<close>

subsection \<open>Data model\<close>

text \<open>
  \<^verbatim>\<open>core.UserID\<close> is a Go \<^verbatim>\<open>string\<close>; Go compares strings byte by byte, which is
  the lexicographic order on \<open>char list\<close> with characters ordered by their code.
  \<^verbatim>\<open>Score\<close> is an \<^verbatim>\<open>int64\<close>.
\<close>

type_synonym UserID = string

record Entry =
  User :: UserID
  Score :: "64 word"

text \<open>A \<^verbatim>\<open>*node\<close>: \<open>None\<close> is \<^verbatim>\<open>nil\<close>, \<open>Some a\<close> points to heap cell \<open>a\<close>.\<close>

type_synonym ptr = "nat option"

text \<open>
  \<^verbatim>\<open>type node struct { e Entry; next [maxLevel]*node }\<close>. The array has the fixed
  length \<open>maxLevel\<close>; it is a function from indices, and every access checks the index
  against \<open>maxLevel\<close> first, as Go does. (\<open>next\<close> is an Isar keyword: the field is
  \<open>nexts\<close>.)
\<close>

record node =
  e :: Entry
  nexts :: "nat \<Rightarrow> ptr"

text \<open>
  \<^verbatim>\<open>type SkipList struct { mu; head *node; lvl int; byUser map[UserID]*node; rng }\<close>.
  The lock \<open>mu\<close> has no sequential content and is left out. The generator \<open>rng\<close> is the
  stream of values its later \<^verbatim>\<open>Float64()\<close> calls return. Two fields are added for
  the heap the list owns: \<open>cells\<close> holds the node stored at each address and \<open>nalloc\<close>
  is the number of nodes allocated so far, the address of the next \<^verbatim>\<open>&node{...}\<close>.
  \<^verbatim>\<open>lvl\<close> is a Go \<^verbatim>\<open>int\<close>; the loops keep every level and index between \<open>-1\<close> and
  \<open>maxLevel\<close>, so an unbounded integer stands for it.
\<close>

record SkipList =
  head :: ptr
  lvl :: int
  byUser :: "UserID \<rightharpoonup> ptr"
  rng :: "nat \<Rightarrow> real"
  cells :: "nat \<Rightarrow> node"
  nalloc :: nat

datatype panic = NilDeref | IndexOutOfRange | MakeSliceCap

text \<open>
  The result of a call: \<open>None\<close> when the call does not return, \<open>Some (Inl p)\<close> when it
  panics, \<open>Some (Inr x)\<close> when it returns \<open>x\<close>.
\<close>

type_synonym 'a res = "(panic + 'a) option"

definition ok :: "'a \<Rightarrow> 'a res" where
  "ok x = Some (Inr x)"

definition raise :: "panic \<Rightarrow> 'a res" where
  "raise p = Some (Inl p)"

definition bnd :: "'a res \<Rightarrow> ('a \<Rightarrow> 'b res) \<Rightarrow> 'b res" where
  "bnd m f = (case m of None \<Rightarrow> None | Some (Inl p) \<Rightarrow> Some (Inl p) | Some (Inr x) \<Rightarrow> f x)"

definition maxLevel :: int where
  "maxLevel = 16"

definition pFactor :: real where
  "pFactor = 0.25"

definition zero_Entry :: Entry where
  "zero_Entry = \<lparr>User = [], Score = 0\<rparr>"

definition zero_node :: node where
  "zero_node = \<lparr>e = zero_Entry, nexts = (\<lambda>_. None)\<rparr>"

subsection \<open>Construction\<close>

text \<open>
  \<^verbatim>\<open>NewSkipList\<close> seeds the generator from \<^verbatim>\<open>crypto/rand\<close>; the seed fixes the stream,
  which is the parameter \<open>r\<close>. The head \<^verbatim>\<open>&node{}\<close> is the first allocation, at
  address 0.
\<close>

definition NewSkipList :: "(nat \<Rightarrow> real) \<Rightarrow> SkipList" where
  "NewSkipList r =
     \<lparr>head = Some 0, lvl = 1, byUser = Map.empty, rng = r,
      cells = (\<lambda>_. zero_node), nalloc = 1\<rparr>"

subsection \<open>randomLevel\<close>

text \<open>
  \<^verbatim>\<open>for lvl < maxLevel && s.rng.Float64() < pFactor { lvl++ }\<close>: \<^verbatim>\<open>&&\<close> draws a value
  only when \<open>lvl < maxLevel\<close>, and the draw that fails the test is consumed too.
\<close>

function randomLevel_loop :: "int \<Rightarrow> (nat \<Rightarrow> real) \<Rightarrow> int \<times> (nat \<Rightarrow> real)" where
  "randomLevel_loop l r =
     (if l < maxLevel
      then (if r 0 < pFactor then randomLevel_loop (l + 1) (\<lambda>k. r (Suc k))
            else (l, (\<lambda>k. r (Suc k))))
      else (l, r))"
  by pat_completeness auto
termination
  by (relation "measure (\<lambda>(l, r). nat (maxLevel - l))") auto

definition randomLevel :: "SkipList \<Rightarrow> int \<times> SkipList" where
  "randomLevel s = (case randomLevel_loop 1 (rng s) of (l, r') \<Rightarrow> (l, s\<lparr>rng := r'\<rparr>))"

subsection \<open>The comparator\<close>

text \<open>\<^verbatim>\<open>less\<close> of the source; \<open><s\<close> is the signed order of \<^verbatim>\<open>int64\<close>.\<close>

definition less_Entry :: "Entry \<Rightarrow> Entry \<Rightarrow> bool" where
  "less_Entry a b =
     (if Score a = Score b then User a < User b else Score b <s Score a)"

subsection \<open>The search shared by Update and removeLocked\<close>

text \<open>
  The inner loop \<^verbatim>\<open>for cur.next[i] != nil && less(cur.next[i].e, e) { cur = cur.next[i] }\<close>
  at level \<open>i\<close>, from \<open>cur\<close>, for the entry \<open>x\<close>.
\<close>

partial_function (option) walk :: "(nat \<Rightarrow> node) \<Rightarrow> int \<Rightarrow> Entry \<Rightarrow> ptr \<Rightarrow> (panic + ptr) option" where
  "walk st i x cur =
     (case cur of
        None \<Rightarrow> Some (Inl NilDeref)
      | Some c \<Rightarrow>
          if i < 0 \<or> maxLevel \<le> i then Some (Inl IndexOutOfRange)
          else (case nexts (st c) (nat i) of
                  None \<Rightarrow> Some (Inr cur)
                | Some m \<Rightarrow>
                    if less_Entry (e (st m)) x then walk st i x (Some m)
                    else Some (Inr cur)))"

text \<open>
  The outer loop \<^verbatim>\<open>for i := s.lvl - 1; i >= 0; i-- { ...; update[i] = cur }\<close>, the same
  text in \<^verbatim>\<open>Update\<close> (lines 73-79) and in \<^verbatim>\<open>removeLocked\<close> (lines 97-103). It returns
  the array \<open>update\<close>.
\<close>

function search :: "(nat \<Rightarrow> node) \<Rightarrow> Entry \<Rightarrow> int \<Rightarrow> ptr \<Rightarrow> (nat \<Rightarrow> ptr) \<Rightarrow> (nat \<Rightarrow> ptr) res" where
  "search st x i cur update =
     (if 0 \<le> i
      then bnd (walk st i x cur) (\<lambda>cur'.
             if maxLevel \<le> i then raise IndexOutOfRange
             else search st x (i - 1) cur' (update(nat i := cur')))
      else ok update)"
  by pat_completeness auto
termination
  by (relation "measure (\<lambda>(st, x, i, cur, update). nat (i + 1))") auto

subsection \<open>removeLocked and Remove\<close>

text \<open>
  \<^verbatim>\<open>for i := 0; i < s.lvl; i++ { if update[i].next[i] == target { update[i].next[i] = target.next[i] } }\<close>
\<close>

function unlink :: "(nat \<Rightarrow> ptr) \<Rightarrow> nat \<Rightarrow> int \<Rightarrow> SkipList \<Rightarrow> SkipList res" where
  "unlink update t i s =
     (if i < lvl s
      then (if i < 0 \<or> maxLevel \<le> i then raise IndexOutOfRange
            else (case update (nat i) of
                    None \<Rightarrow> raise NilDeref
                  | Some u \<Rightarrow>
                      if nexts (cells s u) (nat i) = Some t
                      then unlink update t (i + 1)
                             (s\<lparr>cells := (cells s)
                                  (u := (cells s u)\<lparr>nexts := (nexts (cells s u))
                                          (nat i := nexts (cells s t) (nat i))\<rparr>)\<rparr>)
                      else unlink update t (i + 1) s))
      else ok s)"
  by pat_completeness auto
termination
  by (relation "measure (\<lambda>(update, t, i, s). nat (lvl s - i))") auto

text \<open>\<^verbatim>\<open>for s.lvl > 1 && s.head.next[s.lvl-1] == nil { s.lvl-- }\<close>\<close>

function shrink :: "SkipList \<Rightarrow> SkipList res" where
  "shrink s =
     (if 1 < lvl s
      then (case head s of
              None \<Rightarrow> raise NilDeref
            | Some h \<Rightarrow>
                if maxLevel \<le> lvl s - 1 then raise IndexOutOfRange
                else if nexts (cells s h) (nat (lvl s - 1)) = None
                then shrink (s\<lparr>lvl := lvl s - 1\<rparr>)
                else ok s)
      else ok s)"
  by pat_completeness auto
termination
  by (relation "measure (\<lambda>s. nat (lvl s))") auto

definition removeLocked :: "UserID \<Rightarrow> Entry \<Rightarrow> SkipList \<Rightarrow> SkipList res" where
  "removeLocked user x s =
     bnd (search (cells s) x (lvl s - 1) (head s) (\<lambda>_. None)) (\<lambda>update.
       case update 0 of
         None \<Rightarrow> raise NilDeref
       | Some u0 \<Rightarrow>
           (case nexts (cells s u0) 0 of
              None \<Rightarrow> ok s
            | Some target \<Rightarrow>
                if User (e (cells s target)) \<noteq> user then ok s
                else bnd (unlink update target 0 s) (\<lambda>s1.
                       shrink (s1\<lparr>byUser := (byUser s1)(user := None)\<rparr>))))"

definition Remove :: "UserID \<Rightarrow> SkipList \<Rightarrow> SkipList res" where
  "Remove user s =
     (case byUser s user of
        Some n \<Rightarrow>
          (case n of
             None \<Rightarrow> raise NilDeref
           | Some a \<Rightarrow> removeLocked user (e (cells s a)) s)
      | None \<Rightarrow> ok s)"

subsection \<open>Update\<close>

text \<open>\<^verbatim>\<open>for i := s.lvl; i < lvl; i++ { update[i] = s.head }\<close>\<close>

function fill :: "ptr \<Rightarrow> int \<Rightarrow> int \<Rightarrow> (nat \<Rightarrow> ptr) \<Rightarrow> (nat \<Rightarrow> ptr) res" where
  "fill h i l update =
     (if i < l
      then (if i < 0 \<or> maxLevel \<le> i then raise IndexOutOfRange
            else fill h (i + 1) l (update(nat i := h)))
      else ok update)"
  by pat_completeness auto
termination
  by (relation "measure (\<lambda>(h, i, l, update). nat (l - i))") auto

text \<open>
  \<^verbatim>\<open>for i := 0; i < lvl; i++ { n.next[i] = update[i].next[i]; update[i].next[i] = n }\<close>
  on the heap \<open>st\<close>, for the new node at address \<open>n\<close>.
\<close>

function splice :: "(nat \<Rightarrow> ptr) \<Rightarrow> nat \<Rightarrow> int \<Rightarrow> int \<Rightarrow> (nat \<Rightarrow> node) \<Rightarrow> (nat \<Rightarrow> node) res" where
  "splice update n i l st =
     (if i < l
      then (if i < 0 \<or> maxLevel \<le> i then raise IndexOutOfRange
            else (case update (nat i) of
                    None \<Rightarrow> raise NilDeref
                  | Some u \<Rightarrow>
                      let st1 = st(n := (st n)\<lparr>nexts := (nexts (st n))
                                          (nat i := nexts (st u) (nat i))\<rparr>);
                          st2 = st1(u := (st1 u)\<lparr>nexts := (nexts (st1 u))
                                          (nat i := Some n)\<rparr>)
                      in splice update n (i + 1) l st2))
      else ok st)"
  by pat_completeness auto
termination
  by (relation "measure (\<lambda>(update, n, i, l, st). nat (l - i))") auto

text \<open>Lines 71-92 of \<^verbatim>\<open>Update\<close>: the insertion of the new entry.\<close>

definition Update_insert :: "UserID \<Rightarrow> 64 word \<Rightarrow> SkipList \<Rightarrow> SkipList res" where
  "Update_insert user score s =
     (let x = \<lparr>User = user, Score = score\<rparr> in
      bnd (search (cells s) x (lvl s - 1) (head s) (\<lambda>_. None)) (\<lambda>update.
        case randomLevel s of (l, s1) \<Rightarrow>
          bnd (if lvl s1 < l
               then bnd (fill (head s1) (lvl s1) l update) (\<lambda>update'.
                      ok (update', s1\<lparr>lvl := l\<rparr>))
               else ok (update, s1)) (\<lambda>(update', s2).
            let n = nalloc s2;
                st = (cells s2)(n := \<lparr>e = x, nexts = (\<lambda>_. None)\<rparr>)
            in bnd (splice update' n 0 l st) (\<lambda>st'.
                 ok (s2\<lparr>cells := st', nalloc := Suc n,
                        byUser := (byUser s2)(user \<mapsto> Some n)\<rparr>)))))"

text \<open>Lines 67-70 of \<^verbatim>\<open>Update\<close>, then the insertion.\<close>

definition Update :: "UserID \<Rightarrow> 64 word \<Rightarrow> SkipList \<Rightarrow> SkipList res" where
  "Update user score s =
     bnd (case byUser s user of
            Some old \<Rightarrow>
              (case old of
                 None \<Rightarrow> raise NilDeref
               | Some a \<Rightarrow> removeLocked user (e (cells s a)) s)
          | None \<Rightarrow> ok s)
       (Update_insert user score)"

subsection \<open>TopN and Get\<close>

text \<open>
  \<^verbatim>\<open>out := make([]Entry, 0, n)\<close> asks the Go runtime for room for \<open>n\<close> entries at once.
  \<^verbatim>\<open>runtime.makeslice\<close> panics with "makeslice: cap out of range" when the size in
  bytes, the capacity times the element size, overflows or exceeds the runtime's
  \<^verbatim>\<open>maxAlloc\<close>. An \<^verbatim>\<open>Entry\<close> is a string header and an \<^verbatim>\<open>int64\<close>, 24 bytes where
  \<^verbatim>\<open>int\<close> has 64 bits, and \<^verbatim>\<open>maxAlloc\<close> is \<open>2 ^ 48\<close> there (linux/amd64). The
  largest \<^verbatim>\<open>int\<close>, \<^verbatim>\<open>math.MaxInt64\<close>, is out of range whatever the two constants are.
  A capacity in range that the machine has no memory for is not modelled: \<open>n\<close> is an
  unbounded integer here and the model has no memory limit.
\<close>

definition entrySize :: int where
  "entrySize = 24"

definition maxAlloc :: int where
  "maxAlloc = 2 ^ 48"

text \<open>
  \<^verbatim>\<open>for cur != nil && len(out) < n { out = append(out, cur.e); cur = cur.next[0] }\<close>
\<close>

function TopN_loop :: "(nat \<Rightarrow> node) \<Rightarrow> int \<Rightarrow> ptr \<Rightarrow> Entry list \<Rightarrow> Entry list" where
  "TopN_loop st n cur out =
     (case cur of
        None \<Rightarrow> out
      | Some c \<Rightarrow>
          if int (length out) < n
          then TopN_loop st n (nexts (st c) 0) (out @ [e (st c)])
          else out)"
  by pat_completeness auto
termination
  by (relation "measure (\<lambda>(st, n, cur, out). nat (n - int (length out)))") auto

definition TopN :: "SkipList \<Rightarrow> int \<Rightarrow> panic + Entry list" where
  "TopN s n =
     (if n \<le> 0 then Inr []
      else if maxAlloc < n * entrySize then Inl MakeSliceCap
      else (case head s of
              None \<Rightarrow> Inl NilDeref
            | Some h \<Rightarrow> Inr (TopN_loop (cells s) n (nexts (cells s h) 0) [])))"

definition Get :: "SkipList \<Rightarrow> UserID \<Rightarrow> panic + Entry \<times> bool" where
  "Get s user =
     (case byUser s user of
        Some n \<Rightarrow>
          (case n of
             None \<Rightarrow> Inl NilDeref
           | Some a \<Rightarrow> Inr (e (cells s a), True))
      | None \<Rightarrow> Inr (zero_Entry, False))"

subsection \<open>Sequences of calls\<close>

datatype call = Upd UserID "64 word" | Rem UserID

fun apply_call :: "call \<Rightarrow> SkipList \<Rightarrow> SkipList res" where
  "apply_call (Upd u sc) s = Update u sc s"
| "apply_call (Rem u) s = Remove u s"

fun run :: "call list \<Rightarrow> SkipList \<Rightarrow> SkipList res" where
  "run [] s = ok s"
| "run (c # cs) s = bnd (apply_call c s) (run cs)"

section \<open>The abstract ranking and the invariant of the heap\<close>

text \<open>
  The definitions below are not code of the repository: they say what a well-formed
  skip list is and which ranked sequence of entries it stands for. A chain is the list
  of addresses met when following the forward links of one level from a node up to
  \<^verbatim>\<open>nil\<close>.
\<close>

text \<open>
  \<open>path st i p xs\<close>: in the heap \<open>st\<close>, following the level-\<open>i\<close> links from the node at
  \<open>p\<close> visits exactly the addresses \<open>xs\<close>, in this order, and then reaches \<^verbatim>\<open>nil\<close>.
\<close>

primrec path :: "(nat \<Rightarrow> node) \<Rightarrow> nat \<Rightarrow> nat \<Rightarrow> nat list \<Rightarrow> bool" where
  "path st i p [] = (nexts (st p) i = None)"
| "path st i p (a # as) = (nexts (st p) i = Some a \<and> path st i a as)"

text \<open>\<open>before st x a\<close>: the entry of the node at \<open>a\<close> ranks before \<open>x\<close>.\<close>

definition before :: "(nat \<Rightarrow> node) \<Rightarrow> Entry \<Rightarrow> nat \<Rightarrow> bool" where
  "before st x a = less_Entry (e (st a)) x"

text \<open>\<open>sorted_chain st xs\<close>: the entries of the nodes \<open>xs\<close> are strictly ascending for \<open>less_Entry\<close>.\<close>

definition sorted_chain :: "(nat \<Rightarrow> node) \<Rightarrow> nat list \<Rightarrow> bool" where
  "sorted_chain st xs = sorted_wrt less_Entry (map (\<lambda>a. e (st a)) xs)"

text \<open>
  \<open>lastBefore st x xs\<close>: the last node of the chain \<open>xs\<close> that ranks before \<open>x\<close>, or the
  head (address 0) when there is none. This is what the search leaves in \<^verbatim>\<open>update[i]\<close>.
\<close>

definition lastBefore :: "(nat \<Rightarrow> node) \<Rightarrow> Entry \<Rightarrow> nat list \<Rightarrow> nat" where
  "lastBefore st x xs = last (0 # takeWhile (before st x) xs)"

text \<open>
  \<open>shape st L\<close>: \<open>L i\<close> is the chain of level \<open>i\<close> from the head, every level is a
  subsequence of the level below (a node of level \<open>i + 1\<close> is a node of level \<open>i\<close>), and
  the level-0 chain is sorted and does not contain the head.
\<close>

definition shape :: "(nat \<Rightarrow> node) \<Rightarrow> (nat \<Rightarrow> nat list) \<Rightarrow> bool" where
  "shape st L \<longleftrightarrow>
     (\<forall>i<16. path st i 0 (L i)) \<and> (\<forall>i. subseq (L (Suc i)) (L i)) \<and>
     sorted_chain st (L 0) \<and> 0 \<notin> set (L 0)"

text \<open>
  \<open>sl_inv s L\<close>: the invariant of the list, with its chains \<open>L\<close>. The head is the node
  at address 0; the max level is between 1 and \<open>maxLevel\<close>; the heap has the shape
  \<open>L\<close>; the levels from the max level up are empty; every node of the level-0 chain
  is allocated; \<open>byUser\<close> maps exactly the users of the level-0 chain, each to its node;
  and the max level is 1 or the topmost level is not empty.
\<close>

definition sl_inv :: "SkipList \<Rightarrow> (nat \<Rightarrow> nat list) \<Rightarrow> bool" where
  "sl_inv s L \<longleftrightarrow>
     head s = Some 0 \<and> 1 \<le> lvl s \<and> lvl s \<le> maxLevel \<and> shape (cells s) L \<and>
     (\<forall>i. nat (lvl s) \<le> i \<longrightarrow> L i = []) \<and>
     (\<forall>a\<in>set (L 0). a < nalloc s) \<and> 0 < nalloc s \<and>
     (\<forall>u p. byUser s u = Some p \<longleftrightarrow>
        (\<exists>a\<in>set (L 0). p = Some a \<and> User (e (cells s a)) = u)) \<and>
     (lvl s = 1 \<or> L (nat (lvl s) - 1) \<noteq> [])"

text \<open>\<open>represents s es\<close>: the list is well formed and its level-0 chain holds the entries \<open>es\<close>.\<close>

definition represents :: "SkipList \<Rightarrow> Entry list \<Rightarrow> bool" where
  "represents s es \<longleftrightarrow> (\<exists>L. sl_inv s L \<and> es = map (\<lambda>a. e (cells s a)) (L 0))"

text \<open>
  The ranking as a list of entries. \<open>insert_ranked x es\<close> puts \<open>x\<close> after the entries
  that rank before it.
\<close>

definition insert_ranked :: "Entry \<Rightarrow> Entry list \<Rightarrow> Entry list" where
  "insert_ranked x es =
     takeWhile (\<lambda>y. less_Entry y x) es @ x # dropWhile (\<lambda>y. less_Entry y x) es"

text \<open>What the calls do to the ranking, and what the queries read from it.\<close>

definition abs_remove :: "UserID \<Rightarrow> Entry list \<Rightarrow> Entry list" where
  "abs_remove u es = filter (\<lambda>y. User y \<noteq> u) es"

definition abs_update :: "UserID \<Rightarrow> 64 word \<Rightarrow> Entry list \<Rightarrow> Entry list" where
  "abs_update u sc es = insert_ranked \<lparr>User = u, Score = sc\<rparr> (filter (\<lambda>y. User y \<noteq> u) es)"

fun abs_call :: "call \<Rightarrow> Entry list \<Rightarrow> Entry list" where
  "abs_call (Upd u sc) es = abs_update u sc es"
| "abs_call (Rem u) es = abs_remove u es"

fun abs_run :: "call list \<Rightarrow> Entry list \<Rightarrow> Entry list" where
  "abs_run [] es = es"
| "abs_run (c # cs) es = abs_run cs (abs_call c es)"

definition abs_TopN :: "Entry list \<Rightarrow> int \<Rightarrow> panic + Entry list" where
  "abs_TopN es n =
     (if n \<le> 0 then Inr []
      else if maxAlloc < n * entrySize then Inl MakeSliceCap
      else Inr (take (nat n) es))"

definition abs_Get :: "Entry list \<Rightarrow> UserID \<Rightarrow> panic + Entry \<times> bool" where
  "abs_Get es u =
     (case find (\<lambda>y. User y = u) es of
        Some y \<Rightarrow> Inr (y, True)
      | None \<Rightarrow> Inr (zero_Entry, False))"

section \<open>Level selection\<close>

declare randomLevel_loop.simps [simp del]

lemma upt_shift: "0 < m \<Longrightarrow> [0..<m] = 0 # map Suc [0..<m - Suc 0]"
  by (cases m) (simp_all add: upt_conv_Cons map_Suc_upt del: upt_Suc)

lemma randomLevel_loop_level:
  "l \<le> maxLevel \<Longrightarrow>
   fst (randomLevel_loop l r) =
     l + int (length (takeWhile (\<lambda>j. r j < pFactor) [0..<nat (maxLevel - l)]))"
proof (induction l r rule: randomLevel_loop.induct)
  case (1 l r)
  show ?case
  proof (cases "l < maxLevel")
    case False
    with "1.prems" show ?thesis
      by (subst randomLevel_loop.simps) simp
  next
    case True
    then have pos: "0 < nat (maxLevel - l)" by simp
    have m: "nat (maxLevel - l) - Suc 0 = nat (maxLevel - (l + 1))" by simp
    show ?thesis
    proof (cases "r 0 < pFactor")
      case False
      with True show ?thesis
        by (subst randomLevel_loop.simps) (simp add: upt_shift [OF pos])
    next
      case hit: True
      from True have "l + 1 \<le> maxLevel" by simp
      from "1.IH" [OF True hit this] True hit show ?thesis
        by (subst randomLevel_loop.simps)
           (simp add: upt_shift [OF pos] m takeWhile_map comp_def)
    qed
  qed
qed

lemma randomLevel_loop_rng:
  "l \<le> maxLevel \<Longrightarrow>
   snd (randomLevel_loop l r) =
     (\<lambda>j. r (j + min (nat (maxLevel - l))
        (Suc (length (takeWhile (\<lambda>j. r j < pFactor) [0..<nat (maxLevel - l)])))))"
proof (induction l r rule: randomLevel_loop.induct)
  case (1 l r)
  show ?case
  proof (cases "l < maxLevel")
    case False
    with "1.prems" show ?thesis
      by (subst randomLevel_loop.simps) simp
  next
    case True
    then have pos: "0 < nat (maxLevel - l)" by simp
    have m: "nat (maxLevel - l) - Suc 0 = nat (maxLevel - (l + 1))" by simp
    show ?thesis
    proof (cases "r 0 < pFactor")
      case False
      with True show ?thesis
        by (subst randomLevel_loop.simps) (simp add: upt_shift [OF pos])
    next
      case hit: True
      from True have le: "l + 1 \<le> maxLevel" by simp
      have M: "nat (maxLevel - l) = Suc (nat (maxLevel - (l + 1)))"
        using True by simp
      from "1.IH" [OF True hit le] True hit show ?thesis
        by (subst randomLevel_loop.simps)
           (simp add: M upt_conv_Cons map_Suc_upt [symmetric] takeWhile_map comp_def del: upt_Suc)
    qed
  qed
qed

text \<open>
  C7. \<^verbatim>\<open>randomLevel\<close> starts the candidate level at 1 and adds one for every
  successful flip (a drawn value below \<open>pFactor\<close>) before the first failed one, looking
  at no more than the first 15 draws, so that the level stops at the ceiling 16: the
  level is 1 plus the number of leading successes among the first 15 draws, it lies
  between 1 and 16, and the generator has advanced by the draws made (one per success
  and one for the failed flip, at most 15).
\<close>

theorem randomLevel_flips:
  "fst (randomLevel s) =
     1 + int (length (takeWhile (\<lambda>j. rng s j < pFactor) [0..<15])) \<and>
   1 \<le> fst (randomLevel s) \<and> fst (randomLevel s) \<le> 16 \<and>
   snd (randomLevel s) = s\<lparr>rng := (\<lambda>j. rng s (j + min 15
       (Suc (length (takeWhile (\<lambda>j. rng s j < pFactor) [0..<15])))))\<rparr>"
proof -
  have l: "fst (randomLevel s) =
     1 + int (length (takeWhile (\<lambda>j. rng s j < pFactor) [0..<15]))"
    using randomLevel_loop_level [of 1 "rng s"]
    by (simp add: randomLevel_def maxLevel_def case_prod_beta)
  have "length (takeWhile (\<lambda>j. rng s j < pFactor) [0..<15]) \<le> 15"
    using length_takeWhile_le [of "\<lambda>j. rng s j < pFactor" "[0..<15]"] by simp
  with l have b: "1 \<le> fst (randomLevel s) \<and> fst (randomLevel s) \<le> 16" by simp
  have r: "snd (randomLevel s) = s\<lparr>rng := (\<lambda>j. rng s (j + min 15
       (Suc (length (takeWhile (\<lambda>j. rng s j < pFactor) [0..<15])))))\<rparr>"
    using randomLevel_loop_rng [of 1 "rng s"]
    by (simp add: randomLevel_def maxLevel_def case_prod_beta)
  from l b r show ?thesis by simp
qed

section \<open>The comparator is a strict total order\<close>

lemma less_Entry_iff:
  "less_Entry a b \<longleftrightarrow>
     sint (Score b) < sint (Score a) \<or> (Score a = Score b \<and> User a < User b)"
  by (auto simp: less_Entry_def word_sless_alt)

lemma less_Entry_irrefl: "\<not> less_Entry a a"
  by (simp add: less_Entry_def)

lemma less_Entry_trans:
  "less_Entry a b \<Longrightarrow> less_Entry b c \<Longrightarrow> less_Entry a c"
  by (auto simp: less_Entry_iff)

lemma less_Entry_total:
  fixes a b :: Entry
  shows "a \<noteq> b \<Longrightarrow> less_Entry a b \<or> less_Entry b a"
proof (cases "Score a = Score b")
  case True
  assume "a \<noteq> b"
  with True have "User a \<noteq> User b" by (cases a, cases b) auto
  with True show ?thesis by (auto simp: less_Entry_def)
next
  case False
  then have "Score a <s Score b \<or> Score b <s Score a"
    using signed.less_linear [of "Score a" "Score b"] by blast
  with False show ?thesis by (auto simp: less_Entry_def)
qed

section \<open>Chains in the heap\<close>

text \<open>
  A chain only depends on the level-\<open>i\<close> links of its own nodes; linking a node in
  after the last node of a prefix, or unlinking the node that follows it, changes the
  chain by that one node.
\<close>

lemma path_cong_level:
  "(\<And>a. a \<in> set (p # xs) \<Longrightarrow> nexts (st' a) i = nexts (st a) i) \<Longrightarrow>
   path st' i p xs = path st i p xs"
  by (induction xs arbitrary: p) auto

lemma path_suffix: "path st i p (xs @ a # ys) \<Longrightarrow> path st i a ys"
  by (induction xs arbitrary: p) auto

lemma path_next_last:
  "path st i p (xs @ a # ys) \<Longrightarrow> nexts (st (last (p # xs))) i = Some a"
  by (induction xs arbitrary: p) auto

lemma path_last_None: "path st i p xs \<Longrightarrow> nexts (st (last (p # xs))) i = None"
  by (induction xs arbitrary: p) auto

lemma path_next_in:
  "path st i p xs \<Longrightarrow> u \<in> set (p # xs) \<Longrightarrow> nexts (st u) i = Some a \<Longrightarrow> a \<in> set xs"
  by (induction xs arbitrary: p) auto

lemma path_unique: "path st i p xs \<Longrightarrow> path st i p ys \<Longrightarrow> xs = ys"
proof (induction xs arbitrary: p ys)
  case Nil
  then show ?case by (cases ys) auto
next
  case (Cons a xs)
  then show ?case by (cases ys) auto
qed

lemma path_insert:
  assumes "path st i p (xs @ ys)"
    and "distinct (p # xs @ ys)" and "n \<notin> set (p # xs @ ys)"
    and "nexts (st' n) i = nexts (st (last (p # xs))) i"
    and "nexts (st' (last (p # xs))) i = Some n"
    and "\<And>a. a \<noteq> n \<Longrightarrow> a \<noteq> last (p # xs) \<Longrightarrow> nexts (st' a) i = nexts (st a) i"
  shows "path st' i p (xs @ n # ys)"
  using assms
proof (induction xs arbitrary: p)
  case Nil
  have "path st' i n ys"
  proof (cases ys)
    case Nil
    with Nil.prems show ?thesis by simp
  next
    case (Cons y zs)
    with Nil.prems have "path st i y zs" by simp
    moreover have "path st' i y zs = path st i y zs"
    proof (rule path_cong_level)
      fix a assume "a \<in> set (y # zs)"
      with Nil.prems(2,3) Cons have "a \<noteq> n" "a \<noteq> last [p]" by auto
      then show "nexts (st' a) i = nexts (st a) i" by (rule Nil.prems(6))
    qed
    ultimately show ?thesis using Nil.prems Cons by simp
  qed
  with Nil.prems show ?case by simp
next
  case (Cons x xs)
  have "path st' i x (xs @ n # ys)"
    using Cons.prems by (intro Cons.IH) auto
  moreover have "nexts (st' p) i = nexts (st p) i"
    using Cons.prems by (intro Cons.prems(6)) auto
  ultimately show ?case using Cons.prems by simp
qed

lemma path_delete:
  assumes "path st i p (xs @ t # ys)"
    and "distinct (p # xs @ t # ys)"
    and "nexts (st' (last (p # xs))) i = nexts (st t) i"
    and "\<And>a. a \<noteq> last (p # xs) \<Longrightarrow> nexts (st' a) i = nexts (st a) i"
  shows "path st' i p (xs @ ys)"
  using assms
proof (induction xs arbitrary: p)
  case Nil
  show ?case
  proof (cases ys)
    case Nil
    with Nil.prems show ?thesis by simp
  next
    case (Cons y zs)
    with Nil.prems have "path st i y zs" by simp
    moreover have "path st' i y zs = path st i y zs"
    proof (rule path_cong_level)
      fix a assume "a \<in> set (y # zs)"
      with Nil.prems(2) Cons have "a \<noteq> last [p]" by auto
      then show "nexts (st' a) i = nexts (st a) i" by (rule Nil.prems(4))
    qed
    ultimately show ?thesis using Nil.prems Cons by simp
  qed
next
  case (Cons x xs)
  have "path st' i x (xs @ ys)"
    using Cons.prems by (intro Cons.IH) auto
  moreover have "nexts (st' p) i = nexts (st p) i"
    using Cons.prems by (intro Cons.prems(4)) auto
  ultimately show ?case using Cons.prems by simp
qed

section \<open>The inner search loop on a chain\<close>

declare search.simps [simp del] unlink.simps [simp del] shrink.simps [simp del]
  fill.simps [simp del] splice.simps [simp del] TopN_loop.simps [simp del]

lemma bnd_ok [simp]: "bnd (ok x) f = f x"
  by (simp add: bnd_def ok_def)

lemma bnd_Some_Inr [simp]: "bnd (Some (Inr x)) f = f x"
  by (simp add: bnd_def)

lemma walk_path:
  assumes "path st i c xs" and "int i < maxLevel"
  shows "walk st (int i) x (Some c) =
           Some (Inr (Some (last (c # takeWhile (before st x) xs))))"
  using assms(1)
proof (induction xs arbitrary: c)
  case Nil
  with assms(2) show ?case
    by (subst walk.simps) simp
next
  case (Cons a xs)
  then have nx: "nexts (st c) i = Some a" and p: "path st i a xs" by simp_all
  show ?case
  proof (cases "before st x a")
    case True
    then have l: "less_Entry (e (st a)) x" by (simp add: before_def)
    from nx assms(2) l True Cons.IH [OF p] show ?thesis
      by (subst walk.simps) simp
  next
    case False
    then have l: "\<not> less_Entry (e (st a)) x" by (simp add: before_def)
    from nx assms(2) l False show ?thesis
      by (subst walk.simps) simp
  qed
qed

text \<open>In a sorted chain the nodes that rank before \<open>x\<close> form a prefix.\<close>

lemma sorted_chain_Cons:
  "sorted_chain st (a # xs) \<longleftrightarrow>
     (\<forall>b\<in>set xs. less_Entry (e (st a)) (e (st b))) \<and> sorted_chain st xs"
  by (auto simp: sorted_chain_def)

lemma sorted_chain_Nil [simp]: "sorted_chain st []"
  by (simp add: sorted_chain_def)

lemma sorted_chain_append:
  "sorted_chain st (xs @ ys) \<longleftrightarrow>
     sorted_chain st xs \<and> sorted_chain st ys \<and>
     (\<forall>a\<in>set xs. \<forall>b\<in>set ys. less_Entry (e (st a)) (e (st b)))"
  by (auto simp: sorted_chain_def sorted_wrt_append)

lemma sorted_wrt_subseq:
  "subseq ys xs \<Longrightarrow> sorted_wrt R xs \<Longrightarrow> sorted_wrt R ys"
proof (induction ys xs rule: list_emb.induct)
  case (list_emb_Nil ys)
  then show ?case by simp
next
  case (list_emb_Cons xs ys y)
  then show ?case by simp
next
  case (list_emb_Cons2 x y xs ys)
  then have "set xs \<subseteq> set ys" by (auto dest: list_emb_set)
  with list_emb_Cons2 show ?case by auto
qed

lemma sorted_chain_subseq:
  "subseq ys xs \<Longrightarrow> sorted_chain st xs \<Longrightarrow> sorted_chain st ys"
  unfolding sorted_chain_def sorted_wrt_map
  by (rule sorted_wrt_subseq)

lemma sorted_chain_distinct: "sorted_chain st xs \<Longrightarrow> distinct xs"
  by (induction xs) (auto simp: sorted_chain_Cons less_Entry_irrefl)

lemma takeWhile_before_resume:
  assumes "sorted_chain st (pre @ c # post)" and "before st x c"
  shows "takeWhile (before st x) (pre @ c # post) = pre @ c # takeWhile (before st x) post"
proof -
  have "\<forall>a\<in>set pre. before st x a"
    using assms by (auto simp: sorted_chain_append sorted_chain_Cons before_def
        intro: less_Entry_trans)
  then show ?thesis using assms(2) by (simp add: takeWhile_append2)
qed

lemma filter_before_Nil:
  assumes "sorted_chain st (a # xs)" and "\<not> before st x a"
  shows "filter (before st x) xs = []"
proof -
  have "\<not> before st x b" if "b \<in> set xs" for b
  proof
    assume "before st x b"
    moreover from assms(1) that have "less_Entry (e (st a)) (e (st b))"
      by (simp add: sorted_chain_Cons)
    ultimately have "before st x a"
      by (auto simp: before_def intro: less_Entry_trans)
    with assms(2) show False by simp
  qed
  then show ?thesis by (simp add: filter_empty_conv)
qed

lemma takeWhile_before_filter:
  "sorted_chain st xs \<Longrightarrow> takeWhile (before st x) xs = filter (before st x) xs"
proof (induction xs)
  case Nil
  then show ?case by simp
next
  case (Cons a xs)
  then show ?case
    by (cases "before st x a") (simp_all add: sorted_chain_Cons filter_before_Nil [OF Cons.prems])
qed

lemma dropWhile_before_filter:
  "sorted_chain st xs \<Longrightarrow>
   dropWhile (before st x) xs = filter (\<lambda>a. \<not> before st x a) xs"
proof (induction xs)
  case Nil
  then show ?case by simp
next
  case (Cons a xs)
  show ?case
  proof (cases "before st x a")
    case True
    with Cons show ?thesis by (simp add: sorted_chain_Cons)
  next
    case False
    from filter_before_Nil [OF Cons.prems False]
    have "\<forall>b\<in>set xs. \<not> before st x b" by (simp add: filter_empty_conv)
    with False show ?thesis by (simp add: filter_id_conv)
  qed
qed

section \<open>The search over the levels\<close>

lemma subseq_set: "subseq xs ys \<Longrightarrow> set xs \<subseteq> set ys"
  by (auto dest: list_emb_set)

lemma shape_path: "shape st L \<Longrightarrow> i < 16 \<Longrightarrow> path st i 0 (L i)"
  by (simp add: shape_def)

lemma shape_subseq_le: "shape st L \<Longrightarrow> i \<le> j \<Longrightarrow> subseq (L j) (L i)"
proof (induction j)
  case 0
  then show ?case by simp
next
  case (Suc j)
  show ?case
  proof (cases "i = Suc j")
    case True
    then show ?thesis by simp
  next
    case False
    with Suc have "subseq (L j) (L i)" by simp
    moreover from Suc.prems have "subseq (L (Suc j)) (L j)" by (simp add: shape_def)
    ultimately show ?thesis by (rule subseq_order.trans [rotated])
  qed
qed

lemma shape_sorted: "shape st L \<Longrightarrow> sorted_chain st (L i)"
  using shape_subseq_le [of st L 0 i] by (auto simp: shape_def intro: sorted_chain_subseq)

lemma shape_set_le: "shape st L \<Longrightarrow> i \<le> j \<Longrightarrow> set (L j) \<subseteq> set (L i)"
  by (rule subseq_set) (rule shape_subseq_le)

lemma shape_no_head: "shape st L \<Longrightarrow> 0 \<notin> set (L i)"
  using shape_set_le [of st L 0 i] by (auto simp: shape_def)

lemma shape_distinct: "shape st L \<Longrightarrow> distinct (0 # L i)"
  using shape_no_head [of st L i] shape_sorted [of st L i]
  by (simp add: sorted_chain_distinct)

lemma lastBefore_cases:
  "lastBefore st x xs = 0 \<or> (lastBefore st x xs \<in> set xs \<and> before st x (lastBefore st x xs))"
proof (cases "takeWhile (before st x) xs = []")
  case True
  then show ?thesis by (simp add: lastBefore_def)
next
  case False
  then have "last (takeWhile (before st x) xs) \<in> set (takeWhile (before st x) xs)"
    by simp
  then have "last (takeWhile (before st x) xs) \<in> set xs \<and>
             before st x (last (takeWhile (before st x) xs))"
    by (metis set_takeWhileD)
  with False show ?thesis by (simp add: lastBefore_def)
qed

lemma walk_level:
  assumes sh: "shape st L" and k: "int k < maxLevel"
    and c: "c = 0 \<or> (c \<in> set (L k) \<and> before st x c)"
  shows "walk st (int k) x (Some c) = Some (Inr (Some (lastBefore st x (L k))))"
proof -
  from k have k16: "k < 16" by (simp add: maxLevel_def)
  from sh k16 have p: "path st k 0 (L k)" by (rule shape_path)
  from c show ?thesis
  proof
    assume "c = 0"
    with walk_path [OF p k] show ?thesis by (simp add: lastBefore_def)
  next
    assume "c \<in> set (L k) \<and> before st x c"
    then have cin: "c \<in> set (L k)" and b: "before st x c" by simp_all
    from cin obtain pre post where sp: "L k = pre @ c # post"
      by (auto dest: split_list)
    with p have "path st k c post" by (auto dest: path_suffix)
    from walk_path [OF this k]
    have w: "walk st (int k) x (Some c) =
             Some (Inr (Some (last (c # takeWhile (before st x) post))))" .
    from sh have "sorted_chain st (L k)" by (rule shape_sorted)
    with sp have "sorted_chain st (pre @ c # post)" by simp
    from takeWhile_before_resume [OF this b] sp
    have "lastBefore st x (L k) = last (c # takeWhile (before st x) post)"
      by (simp add: lastBefore_def)
    with w show ?thesis by simp
  qed
qed

lemma search_spec:
  assumes sh: "shape st L"
  shows "int k < maxLevel \<Longrightarrow> c = 0 \<or> (c \<in> set (L k) \<and> before st x c) \<Longrightarrow>
         search st x (int k) (Some c) upd =
           ok (\<lambda>j. if j \<le> k then Some (lastBefore st x (L j)) else upd j)"
proof (induction k arbitrary: c upd)
  case 0
  have "(upd(0 := Some (lastBefore st x (L 0)))) =
        (\<lambda>j. if j \<le> 0 then Some (lastBefore st x (L j)) else upd j)"
    by (rule ext) simp
  with walk_level [OF sh "0.prems"] "0.prems"(1) show ?case
    by (subst search.simps, subst search.simps) simp
next
  case (Suc k)
  let ?c' = "lastBefore st x (L (Suc k))"
  from Suc.prems(1) have k: "int k < maxLevel" by simp
  have "?c' = 0 \<or> (?c' \<in> set (L k) \<and> before st x ?c')"
    using lastBefore_cases [of st x "L (Suc k)"] shape_set_le [OF sh, of k "Suc k"]
    by auto
  from Suc.IH [OF k this]
  have ih: "search st x (int k) (Some ?c') (upd(Suc k := Some ?c')) =
        ok (\<lambda>j. if j \<le> k then Some (lastBefore st x (L j))
                 else (upd(Suc k := Some ?c')) j)" .
  have "(\<lambda>j. if j \<le> k then Some (lastBefore st x (L j)) else (upd(Suc k := Some ?c')) j) =
        (\<lambda>j. if j \<le> Suc k then Some (lastBefore st x (L j)) else upd j)"
    by (rule ext) (simp add: le_Suc_eq)
  with ih walk_level [OF sh Suc.prems] Suc.prems(1) show ?case
    by (subst search.simps) (simp add: nat_add_distrib)
qed

section \<open>The loops that fill, splice, unlink and shrink\<close>

lemma fill_spec:
  "l \<le> 16 \<Longrightarrow>
   fill h (int i) (int l) upd = ok (\<lambda>j. if i \<le> j \<and> j < l then h else upd j)"
proof (induction "l - i" arbitrary: i upd)
  case 0
  then have "(\<lambda>j. if i \<le> j \<and> j < l then h else upd j) = upd"
    by (intro ext) auto
  with 0 show ?case by (subst fill.simps) simp
next
  case (Suc d)
  then have il: "i < l" and d: "d = l - Suc i" by simp_all
  have "(\<lambda>j. if Suc i \<le> j \<and> j < l then h else (upd(i := h)) j) =
        (\<lambda>j. if i \<le> j \<and> j < l then h else upd j)"
    using il by (intro ext) auto
  with Suc.hyps(1) [OF d Suc.prems, of "upd(i := h)"] il Suc.prems show ?case
    by (subst fill.simps) (simp add: maxLevel_def add.commute)
qed

lemma splice_spec:
  assumes l: "l \<le> 16"
  shows "(\<And>j. i \<le> j \<Longrightarrow> j < l \<Longrightarrow>
            path st j 0 (pre j @ post j) \<and> distinct (0 # pre j @ post j) \<and>
            n \<notin> set (0 # pre j @ post j) \<and> upd j = Some (last (0 # pre j))) \<Longrightarrow>
     \<exists>st'. splice upd n (int i) (int l) st = ok st' \<and>
       (\<forall>a. e (st' a) = e (st a)) \<and>
       (\<forall>j. i \<le> j \<and> j < l \<longrightarrow> path st' j 0 (pre j @ n # post j)) \<and>
       (\<forall>j a. \<not> (i \<le> j \<and> j < l) \<longrightarrow> nexts (st' a) j = nexts (st a) j)"
proof (induction "l - i" arbitrary: i st)
  case 0
  then have "\<not> int i < int l" by simp
  then have "splice upd n (int i) (int l) st = ok st"
    by (subst splice.simps) simp
  with 0 show ?case by auto
next
  case (Suc d)
  then have il: "i < l" and d: "d = l - Suc i" by simp_all
  let ?u = "last (0 # pre i)"
  from Suc.prems [of i] il
  have p: "path st i 0 (pre i @ post i)" and dist: "distinct (0 # pre i @ post i)"
    and fresh: "n \<notin> set (0 # pre i @ post i)" and u: "upd i = Some ?u"
    by simp_all
  have uin: "?u \<in> set (0 # pre i)" by (rule last_in_set) simp
  with fresh have un: "?u \<noteq> n" by auto
  define st1 where "st1 = st(n := (st n)\<lparr>nexts := (nexts (st n))(i := nexts (st ?u) i)\<rparr>)"
  define st2 where "st2 = st1(?u := (st1 ?u)\<lparr>nexts := (nexts (st1 ?u))(i := Some n)\<rparr>)"
  have e2: "e (st2 a) = e (st a)" for a
    by (simp add: st2_def st1_def)
  have other: "nexts (st2 a) j = nexts (st a) j" if "j \<noteq> i" for a j
    using that by (simp add: st2_def st1_def)
  have n2: "nexts (st2 n) i = nexts (st ?u) i"
    using un by (simp add: st2_def st1_def)
  have u2: "nexts (st2 ?u) i = Some n"
    by (simp add: st2_def)
  have rest2: "nexts (st2 a) i = nexts (st a) i" if "a \<noteq> n" "a \<noteq> ?u" for a
    using that by (simp add: st2_def st1_def)
  have p2: "path st2 i 0 (pre i @ n # post i)"
    by (rule path_insert [OF p dist fresh n2 u2 rest2])
  have step: "splice upd n (int i) (int l) st = splice upd n (int (Suc i)) (int l) st2"
    using il l u
    by (subst splice.simps) (simp add: maxLevel_def Let_def st1_def st2_def add.commute)
  have pre2: "path st2 j 0 (pre j @ post j) \<and> distinct (0 # pre j @ post j) \<and>
            n \<notin> set (0 # pre j @ post j) \<and> upd j = Some (last (0 # pre j))"
    if "Suc i \<le> j" "j < l" for j
  proof -
    from that have ji: "j \<noteq> i" and "i \<le> j" by simp_all
    with Suc.prems [of j] that
    have *: "path st j 0 (pre j @ post j)" "distinct (0 # pre j @ post j)"
      "n \<notin> set (0 # pre j @ post j)" "upd j = Some (last (0 # pre j))" by simp_all
    have "path st2 j 0 (pre j @ post j) = path st j 0 (pre j @ post j)"
      by (rule path_cong_level) (rule other [OF ji])
    with * show ?thesis by simp
  qed
  from Suc.hyps(1) [OF d pre2] obtain st'
    where sp: "splice upd n (int (Suc i)) (int l) st2 = ok st'"
      and e': "\<forall>a. e (st' a) = e (st2 a)"
      and p': "\<forall>j. Suc i \<le> j \<and> j < l \<longrightarrow> path st' j 0 (pre j @ n # post j)"
      and fr': "\<forall>j a. \<not> (Suc i \<le> j \<and> j < l) \<longrightarrow> nexts (st' a) j = nexts (st2 a) j"
    by blast
  have "path st' i 0 (pre i @ n # post i) = path st2 i 0 (pre i @ n # post i)"
    by (rule path_cong_level) (simp add: fr')
  with p2 have pi: "path st' i 0 (pre i @ n # post i)" by simp
  have "\<forall>j. i \<le> j \<and> j < l \<longrightarrow> path st' j 0 (pre j @ n # post j)"
  proof (intro allI impI)
    fix j assume "i \<le> j \<and> j < l"
    then show "path st' j 0 (pre j @ n # post j)"
      using pi p' by (cases "j = i") auto
  qed
  moreover have "\<forall>j a. \<not> (i \<le> j \<and> j < l) \<longrightarrow> nexts (st' a) j = nexts (st a) j"
  proof (intro allI impI)
    fix j a assume nj: "\<not> (i \<le> j \<and> j < l)"
    with il have "j \<noteq> i" by auto
    from nj have "\<not> (Suc i \<le> j \<and> j < l)" by auto
    with fr' have "nexts (st' a) j = nexts (st2 a) j" by simp
    with other [OF \<open>j \<noteq> i\<close>] show "nexts (st' a) j = nexts (st a) j" by simp
  qed
  ultimately show ?case using step sp e' e2 by auto
qed

lemma unlink_spec:
  assumes l: "l \<le> 16"
  shows "lvl s = int l \<Longrightarrow>
     (\<And>j. i \<le> j \<Longrightarrow> j < l \<Longrightarrow>
        path (cells s) j 0 (L j) \<and> distinct (0 # L j) \<and>
        (\<exists>u. upd j = Some u \<and>
          ((\<exists>pre post. L j = pre @ t # post \<and> u = last (0 # pre)) \<or>
           (t \<notin> set (L j) \<and> u \<in> set (0 # L j))))) \<Longrightarrow>
     \<exists>s'. unlink upd t (int i) s = ok s' \<and> s' = s\<lparr>cells := cells s'\<rparr> \<and>
       (\<forall>a. e (cells s' a) = e (cells s a)) \<and>
       (\<forall>j. i \<le> j \<and> j < l \<longrightarrow> path (cells s') j 0 (removeAll t (L j))) \<and>
       (\<forall>j a. \<not> (i \<le> j \<and> j < l) \<longrightarrow> nexts (cells s' a) j = nexts (cells s a) j)"
proof (induction "l - i" arbitrary: i s)
  case 0
  then have "\<not> int i < lvl s" by simp
  then have "unlink upd t (int i) s = ok s"
    by (subst unlink.simps) simp
  with 0 show ?case by auto
next
  case (Suc d)
  then have il: "i < l" and d: "d = l - Suc i" by simp_all
  from Suc.prems(2) [of i] il obtain u
    where p: "path (cells s) i 0 (L i)" and dist: "distinct (0 # L i)"
      and u: "upd i = Some u"
      and cases: "(\<exists>pre post. L i = pre @ t # post \<and> u = last (0 # pre)) \<or>
           (t \<notin> set (L i) \<and> u \<in> set (0 # L i))"
    by auto
  define s2 where "s2 =
     (if nexts (cells s u) i = Some t
      then s\<lparr>cells := (cells s)(u := (cells s u)\<lparr>nexts := (nexts (cells s u))
                 (i := nexts (cells s t) i)\<rparr>)\<rparr>
      else s)"
  have step: "unlink upd t (int i) s = unlink upd t (int (Suc i)) s2"
    using il l u Suc.prems(1)
    by (subst unlink.simps) (simp add: maxLevel_def s2_def add.commute)
  have lvl2: "lvl s2 = int l" using Suc.prems(1) by (simp add: s2_def)
  have s2: "s2 = s\<lparr>cells := cells s2\<rparr>" by (simp add: s2_def)
  have e2: "e (cells s2 a) = e (cells s a)" for a
    by (simp add: s2_def)
  have other: "nexts (cells s2 a) j = nexts (cells s a) j" if "j \<noteq> i" for a j
    using that by (simp add: s2_def)
  have p2: "path (cells s2) i 0 (removeAll t (L i))"
    using cases
  proof
    assume "\<exists>pre post. L i = pre @ t # post \<and> u = last (0 # pre)"
    then obtain pre post where sp: "L i = pre @ t # post" and ul: "u = last (0 # pre)"
      by blast
    from p sp have nx: "nexts (cells s u) i = Some t"
      unfolding ul by (auto dest: path_next_last)
    from sp dist have "t \<notin> set pre" "t \<notin> set post" by auto
    then have ra: "removeAll t (L i) = pre @ post" by (simp add: sp)
    have "path (cells s2) i 0 (pre @ post)"
    proof (rule path_delete)
      show "path (cells s) i 0 (pre @ t # post)" using p sp by simp
      show "distinct (0 # pre @ t # post)" using dist sp by simp
      show "nexts (cells s2 (last (0 # pre))) i = nexts (cells s t) i"
        using nx by (simp add: s2_def ul)
      show "nexts (cells s2 a) i = nexts (cells s a) i" if "a \<noteq> last (0 # pre)" for a
        using that by (simp add: s2_def ul)
    qed
    with ra show ?thesis by simp
  next
    assume a: "t \<notin> set (L i) \<and> u \<in> set (0 # L i)"
    then have "nexts (cells s u) i \<noteq> Some t"
      using path_next_in [OF p, of u t] by auto
    then have "s2 = s" by (simp add: s2_def)
    with a p show ?thesis by simp
  qed
  have pre2: "path (cells s2) j 0 (L j) \<and> distinct (0 # L j) \<and>
        (\<exists>u. upd j = Some u \<and>
          ((\<exists>pre post. L j = pre @ t # post \<and> u = last (0 # pre)) \<or>
           (t \<notin> set (L j) \<and> u \<in> set (0 # L j))))"
    if "Suc i \<le> j" "j < l" for j
  proof -
    from that have ji: "j \<noteq> i" and "i \<le> j" by simp_all
    have "path (cells s2) j 0 (L j) = path (cells s) j 0 (L j)"
      by (rule path_cong_level) (rule other [OF ji])
    with Suc.prems(2) [OF \<open>i \<le> j\<close> that(2)] show ?thesis by simp
  qed
  from Suc.hyps(1) [OF d lvl2 pre2] obtain s'
    where sp: "unlink upd t (int (Suc i)) s2 = ok s'"
      and s': "s' = s2\<lparr>cells := cells s'\<rparr>"
      and e': "\<forall>a. e (cells s' a) = e (cells s2 a)"
      and p': "\<forall>j. Suc i \<le> j \<and> j < l \<longrightarrow> path (cells s') j 0 (removeAll t (L j))"
      and fr': "\<forall>j a. \<not> (Suc i \<le> j \<and> j < l) \<longrightarrow>
                  nexts (cells s' a) j = nexts (cells s2 a) j"
    by blast
  have "path (cells s') i 0 (removeAll t (L i)) = path (cells s2) i 0 (removeAll t (L i))"
    by (rule path_cong_level) (simp add: fr')
  with p2 have pi: "path (cells s') i 0 (removeAll t (L i))" by simp
  have "\<forall>j. i \<le> j \<and> j < l \<longrightarrow> path (cells s') j 0 (removeAll t (L j))"
  proof (intro allI impI)
    fix j assume "i \<le> j \<and> j < l"
    then show "path (cells s') j 0 (removeAll t (L j))"
      using pi p' by (cases "j = i") auto
  qed
  moreover have "\<forall>j a. \<not> (i \<le> j \<and> j < l) \<longrightarrow> nexts (cells s' a) j = nexts (cells s a) j"
  proof (intro allI impI)
    fix j a assume nj: "\<not> (i \<le> j \<and> j < l)"
    with il have "j \<noteq> i" by auto
    from nj have "\<not> (Suc i \<le> j \<and> j < l)" by auto
    with fr' have "nexts (cells s' a) j = nexts (cells s2 a) j" by simp
    with other [OF \<open>j \<noteq> i\<close>] show "nexts (cells s' a) j = nexts (cells s a) j" by simp
  qed
  moreover have "s' = s\<lparr>cells := cells s'\<rparr>"
    using s' s2 by (metis SkipList.update_convs(5) SkipList.surjective)
  ultimately show ?case using step sp e' e2 by auto
qed

lemma shrink_spec:
  "head s = Some h \<Longrightarrow> lvl s = int l \<Longrightarrow> 1 \<le> l \<Longrightarrow> l \<le> 16 \<Longrightarrow>
   \<exists>l'. shrink s = ok (s\<lparr>lvl := int l'\<rparr>) \<and> 1 \<le> l' \<and> l' \<le> l \<and>
     (\<forall>j. l' \<le> j \<and> j < l \<longrightarrow> nexts (cells s h) j = None) \<and>
     (l' = 1 \<or> nexts (cells s h) (l' - 1) \<noteq> None)"
proof (induction l arbitrary: s)
  case 0
  then show ?case by simp
next
  case (Suc l)
  show ?case
  proof (cases "l = 0")
    case True
    with Suc.prems have "shrink s = ok s"
      by (subst shrink.simps) simp
    moreover from True Suc.prems have "s\<lparr>lvl := int 1\<rparr> = s" by simp
    ultimately show ?thesis using True by (intro exI [of _ 1]) simp
  next
    case False
    show ?thesis
    proof (cases "nexts (cells s h) l = None")
      case nn: False
      then obtain y where y: "nexts (cells s h) l = Some y" by auto
      from False Suc.prems have "shrink s = ok s"
        by (subst shrink.simps) (simp add: maxLevel_def y)
      moreover from Suc.prems have "s\<lparr>lvl := int (Suc l)\<rparr> = s" by simp
      ultimately show ?thesis using nn by (intro exI [of _ "Suc l"]) auto
    next
      case True
      let ?s = "s\<lparr>lvl := int l\<rparr>"
      from True False Suc.prems have step: "shrink s = shrink ?s"
        by (subst shrink.simps) (simp add: maxLevel_def)
      from Suc.IH [of ?s] Suc.prems False obtain l'
        where "shrink ?s = ok (?s\<lparr>lvl := int l'\<rparr>)" "1 \<le> l'" "l' \<le> l"
          "\<forall>j. l' \<le> j \<and> j < l \<longrightarrow> nexts (cells s h) j = None"
          "l' = 1 \<or> nexts (cells s h) (l' - 1) \<noteq> None"
        by auto
      with step True show ?thesis
        by (intro exI [of _ l']) (auto simp: less_Suc_eq)
    qed
  qed
qed

text \<open>The loop of TopN on a chain: it appends the first entries until \<open>n\<close> are collected.\<close>

lemma TopN_loop_path:
  "path st 0 p xs \<Longrightarrow>
   TopN_loop st n (nexts (st p) 0) out =
     out @ map (\<lambda>a. e (st a)) (take (nat n - length out) xs)"
proof (induction xs arbitrary: p out)
  case Nil
  then show ?case by (subst TopN_loop.simps) simp
next
  case (Cons a xs)
  then have nx: "nexts (st p) 0 = Some a" and p: "path st 0 a xs" by simp_all
  show ?case
  proof (cases "int (length out) < n")
    case True
    then have "nat n - length out = Suc (nat n - Suc (length out))" by linarith
    with True nx Cons.IH [OF p, of "out @ [e (st a)]"] show ?thesis
      by (subst TopN_loop.simps) simp
  next
    case False
    then have "nat n - length out = 0" by linarith
    with False nx show ?thesis
      by (subst TopN_loop.simps) simp
  qed
qed

section \<open>The invariant\<close>

lemma path_None: "path st i p xs \<Longrightarrow> nexts (st p) i = None \<Longrightarrow> xs = []"
  by (cases xs) auto

lemma sorted_chain_cong:
  "(\<And>a. a \<in> set xs \<Longrightarrow> e (st' a) = e (st a)) \<Longrightarrow> sorted_chain st' xs = sorted_chain st xs"
proof -
  assume "\<And>a. a \<in> set xs \<Longrightarrow> e (st' a) = e (st a)"
  then have "map (\<lambda>a. e (st' a)) xs = map (\<lambda>a. e (st a)) xs" by simp
  then show ?thesis unfolding sorted_chain_def by (rule arg_cong)
qed

lemma takeWhile_before_self:
  assumes "sorted_chain st (pre @ t # post)"
  shows "takeWhile (before st (e (st t))) (pre @ t # post) = pre"
proof -
  from assms have "\<forall>a\<in>set pre. before st (e (st t)) a"
    by (auto simp: sorted_chain_append before_def)
  moreover have "\<not> before st (e (st t)) t"
    by (simp add: before_def less_Entry_irrefl)
  ultimately show ?thesis by (simp add: takeWhile_append2)
qed

lemma sl_inv_user_unique:
  assumes "sl_inv s L" and "a \<in> set (L 0)" and "b \<in> set (L 0)"
    and "User (e (cells s a)) = User (e (cells s b))"
  shows "a = b"
proof -
  from assms(1) have by_user: "\<And>u p. byUser s u = Some p \<longleftrightarrow>
        (\<exists>a\<in>set (L 0). p = Some a \<and> User (e (cells s a)) = u)"
    by (simp add: sl_inv_def)
  from assms(2) have "byUser s (User (e (cells s a))) = Some (Some a)"
    by (subst by_user) auto
  moreover from assms(3,4) have "byUser s (User (e (cells s a))) = Some (Some b)"
    by (subst by_user) auto
  ultimately show ?thesis by simp
qed

lemma sl_inv_levels:
  assumes "sl_inv s L"
  shows "\<exists>l. lvl s = int l \<and> 1 \<le> l \<and> l \<le> 16"
proof -
  from assms have "1 \<le> lvl s" "lvl s \<le> 16" by (simp_all add: sl_inv_def maxLevel_def)
  then have "lvl s = int (nat (lvl s)) \<and> 1 \<le> nat (lvl s) \<and> nat (lvl s) \<le> 16" by linarith
  then show ?thesis by blast
qed

lemma search_inv:
  assumes inv: "sl_inv s L" and l: "lvl s = int l"
  shows "search (cells s) x (lvl s - 1) (head s) (\<lambda>_. None) =
           ok (\<lambda>j. if j < l then Some (lastBefore (cells s) x (L j)) else None)"
proof -
  from inv l have l1: "1 \<le> l" and l16: "l \<le> 16" and sh: "shape (cells s) L"
    and hd: "head s = Some 0"
    by (simp_all add: sl_inv_def maxLevel_def)
  then have k: "int (l - 1) < maxLevel" by (simp add: maxLevel_def)
  have eq: "lvl s - 1 = int (l - 1)" using l l1 by simp
  have "(\<lambda>j. if j \<le> l - 1 then Some (lastBefore (cells s) x (L j)) else None) =
        (\<lambda>j. if j < l then Some (lastBefore (cells s) x (L j)) else None)"
    using l1 by (intro ext) auto
  with search_spec [OF sh k, of 0 x "\<lambda>_. None"] show ?thesis
    by (simp add: eq hd)
qed

section \<open>removeLocked keeps the invariant\<close>

text \<open>
  Called with the entry of a node \<open>t\<close> of the level-0 chain, \<^verbatim>\<open>removeLocked\<close> returns, and
  every chain has lost exactly \<open>t\<close>.
\<close>

lemma removeLocked_inv:
  assumes inv: "sl_inv s L" and tin: "t \<in> set (L 0)" and u: "User (e (cells s t)) = u"
  shows "\<exists>s'. removeLocked u (e (cells s t)) s = ok s' \<and>
           sl_inv s' (\<lambda>i. removeAll t (L i)) \<and>
           (\<forall>a. e (cells s' a) = e (cells s a)) \<and> rng s' = rng s \<and> nalloc s' = nalloc s"
proof -
  let ?st = "cells s" and ?x = "e (cells s t)"
  let ?L' = "\<lambda>i. removeAll t (L i)"
  from sl_inv_levels [OF inv] obtain l where l: "lvl s = int l" and l1: "1 \<le> l"
    and l16: "l \<le> 16" by blast
  from inv have sh: "shape ?st L" and hd: "head s = Some 0"
    and empty: "\<And>i. l \<le> i \<Longrightarrow> L i = []"
    and bound: "\<And>a. a \<in> set (L 0) \<Longrightarrow> a < nalloc s" and na: "0 < nalloc s"
    and by_user: "\<And>v p. byUser s v = Some p \<longleftrightarrow>
        (\<exists>a\<in>set (L 0). p = Some a \<and> User (e (cells s a)) = v)"
    by (simp_all add: sl_inv_def l)
  define upd where "upd = (\<lambda>j. if j < l then Some (lastBefore ?st ?x (L j)) else None)"
  have sea: "search ?st ?x (lvl s - 1) (head s) (\<lambda>_. None) = ok upd"
    unfolding upd_def by (rule search_inv [OF inv l])
  have lb: "lastBefore ?st ?x (pre @ t # post) = last (0 # pre)"
    if "sorted_chain ?st (pre @ t # post)" for pre post
    using takeWhile_before_self [OF that] by (simp add: lastBefore_def)
  from tin obtain pre0 post0 where L0: "L 0 = pre0 @ t # post0"
    by (auto dest: split_list)
  from shape_sorted [OF sh, of 0] L0 have "sorted_chain ?st (pre0 @ t # post0)" by simp
  from lb [OF this] L0 l1 have upd0: "upd 0 = Some (last (0 # pre0))"
    by (simp add: upd_def)
  from shape_path [OF sh, of 0] L0 have tgt: "nexts (?st (last (0 # pre0))) 0 = Some t"
    by (auto dest: path_next_last)
  have pre: "path ?st j 0 (L j) \<and> distinct (0 # L j) \<and>
        (\<exists>u. upd j = Some u \<and>
          ((\<exists>pre post. L j = pre @ t # post \<and> u = last (0 # pre)) \<or>
           (t \<notin> set (L j) \<and> u \<in> set (0 # L j))))"
    if "0 \<le> j" "j < l" for j
  proof -
    from that l16 have j16: "j < 16" by simp
    have "(\<exists>pre post. L j = pre @ t # post \<and> lastBefore ?st ?x (L j) = last (0 # pre)) \<or>
           (t \<notin> set (L j) \<and> lastBefore ?st ?x (L j) \<in> set (0 # L j))"
    proof (cases "t \<in> set (L j)")
      case True
      then obtain pre post where sp: "L j = pre @ t # post" by (auto dest: split_list)
      with shape_sorted [OF sh, of j] have "sorted_chain ?st (pre @ t # post)" by simp
      from lb [OF this] sp show ?thesis by auto
    next
      case False
      with lastBefore_cases [of ?st ?x "L j"] show ?thesis by auto
    qed
    with shape_path [OF sh j16] shape_distinct [OF sh, of j] that show ?thesis
      by (simp add: upd_def)
  qed
  from unlink_spec [OF l16 l pre, of 0] obtain s1
    where un: "unlink upd t 0 s = ok s1" and s1: "s1 = s\<lparr>cells := cells s1\<rparr>"
      and e1: "\<And>a. e (cells s1 a) = e (cells s a)"
      and p1: "\<And>j. j < l \<Longrightarrow> path (cells s1) j 0 (removeAll t (L j))"
      and fr1: "\<And>j a. l \<le> j \<Longrightarrow> nexts (cells s1 a) j = nexts (cells s a) j"
    by (auto simp: not_less)
  have f1: "head s1 = head s" "lvl s1 = lvl s" "byUser s1 = byUser s" "rng s1 = rng s"
    "nalloc s1 = nalloc s"
    by (subst s1, simp)+
  define s2 where "s2 = s1\<lparr>byUser := (byUser s1)(u := None)\<rparr>"
  have "head s2 = Some 0" "lvl s2 = int l" by (simp_all add: s2_def f1 hd l)
  from shrink_spec [OF this l1 l16] obtain l'
    where shr: "shrink s2 = ok (s2\<lparr>lvl := int l'\<rparr>)" and l'1: "1 \<le> l'" and l'l: "l' \<le> l"
      and top: "\<And>j. l' \<le> j \<Longrightarrow> j < l \<Longrightarrow> nexts (cells s1 0) j = None"
      and top': "l' = 1 \<or> nexts (cells s1 0) (l' - 1) \<noteq> None"
    by (auto simp: s2_def)
  let ?s' = "s2\<lparr>lvl := int l'\<rparr>"
  have res: "removeLocked u ?x s = ok ?s'"
    using sea upd0 tgt u un shr by (simp add: removeLocked_def s2_def)
  have paths: "path (cells s1) j 0 (?L' j)" if "j < 16" for j
  proof (cases "j < l")
    case True
    then show ?thesis by (rule p1)
  next
    case False
    then have "l \<le> j" by simp
    with empty have "L j = []" by simp
    moreover have "path (cells s1) j 0 (L j) = path ?st j 0 (L j)"
      by (rule path_cong_level) (rule fr1 [OF \<open>l \<le> j\<close>])
    ultimately show ?thesis using shape_path [OF sh that] by simp
  qed
  have sub: "subseq (?L' (Suc i)) (?L' i)" for i
  proof -
    from sh have "subseq (L (Suc i)) (L i)" by (simp add: shape_def)
    then show ?thesis
      unfolding removeAll_filter_not_eq by (rule subseq_filter)
  qed
  have "sorted_chain ?st (?L' 0)"
    using shape_sorted [OF sh, of 0]
    by (rule sorted_chain_subseq [rotated]) (simp add: removeAll_filter_not_eq)
  then have sorted: "sorted_chain (cells s1) (?L' 0)"
    by (subst sorted_chain_cong [of _ _ ?st]) (simp_all add: e1)
  have nohead: "0 \<notin> set (?L' 0)"
    using shape_no_head [OF sh, of 0] by simp
  have shape': "shape (cells s1) ?L'"
    unfolding shape_def using paths sub sorted nohead by blast
  have empty': "?L' i = []" if "l' \<le> i" for i
  proof (cases "l \<le> i")
    case True
    with empty show ?thesis by simp
  next
    case False
    then have il: "i < l" by simp
    with l16 have "i < 16" by simp
    from path_None [OF paths [OF this] top [OF that il]] show ?thesis .
  qed
  have nonempty: "l' = 1 \<or> ?L' (l' - 1) \<noteq> []"
  proof (cases "l' = 1")
    case True
    then show ?thesis by simp
  next
    case False
    with top' have nn: "nexts (cells s1 0) (l' - 1) \<noteq> None" by simp
    from l'l l16 have "l' - 1 < 16" by simp
    from paths [OF this] nn show ?thesis by (cases "?L' (l' - 1)") auto
  qed
  have by_user': "byUser ?s' v = Some p \<longleftrightarrow>
        (\<exists>a\<in>set (?L' 0). p = Some a \<and> User (e (cells ?s' a)) = v)" for v p
  proof (cases "v = u")
    case True
    have "\<not> (\<exists>a\<in>set (?L' 0). p = Some a \<and> User (e (cells s a)) = u)"
    proof
      assume "\<exists>a\<in>set (?L' 0). p = Some a \<and> User (e (cells s a)) = u"
      then obtain a where "a \<in> set (L 0)" "a \<noteq> t" "User (e (cells s a)) = u" by auto
      with sl_inv_user_unique [OF inv this(1) tin] u show False by simp
    qed
    with True show ?thesis by (simp add: s2_def f1 e1)
  next
    case False
    have "(\<exists>a\<in>set (L 0). p = Some a \<and> User (e (cells s a)) = v) \<longleftrightarrow>
          (\<exists>a\<in>set (?L' 0). p = Some a \<and> User (e (cells s a)) = v)"
      using False u by auto
    with False by_user [of v p] show ?thesis by (simp add: s2_def f1 e1)
  qed
  have "sl_inv ?s' ?L'"
    unfolding sl_inv_def
  proof (intro conjI)
    show "head ?s' = Some 0" by (simp add: s2_def f1 hd)
    show "1 \<le> lvl ?s'" using l'1 by simp
    show "lvl ?s' \<le> maxLevel" using l'l l16 by (simp add: maxLevel_def)
    show "shape (cells ?s') ?L'" using shape' by (simp add: s2_def)
    show "\<forall>i. nat (lvl ?s') \<le> i \<longrightarrow> ?L' i = []" using empty' by simp
    show "\<forall>a\<in>set (?L' 0). a < nalloc ?s'" using bound by (simp add: s2_def f1)
    show "0 < nalloc ?s'" using na by (simp add: s2_def f1)
    show "\<forall>v p. byUser ?s' v = Some p \<longleftrightarrow>
        (\<exists>a\<in>set (?L' 0). p = Some a \<and> User (e (cells ?s' a)) = v)"
      using by_user' by blast
    show "lvl ?s' = 1 \<or> ?L' (nat (lvl ?s') - 1) \<noteq> []"
      using nonempty by auto
  qed
  moreover have "\<forall>a. e (cells ?s' a) = e (cells s a)" by (simp add: s2_def e1)
  moreover have "rng ?s' = rng s" "nalloc ?s' = nalloc s" by (simp_all add: s2_def f1)
  ultimately show ?thesis using res by blast
qed

section \<open>The insertion of Update keeps the invariant\<close>

lemma randomLevel_range:
  "\<exists>l r'. randomLevel s = (int l, s\<lparr>rng := r'\<rparr>) \<and> 1 \<le> l \<and> l \<le> 16"
proof -
  let ?k = "length (takeWhile (\<lambda>j. rng s j < pFactor) [0..<15])"
  have "fst (randomLevel_loop 1 (rng s)) = 1 + int ?k"
    using randomLevel_loop_level [of 1 "rng s"] by (simp add: maxLevel_def)
  moreover have "?k \<le> 15"
    using length_takeWhile_le [of "\<lambda>j. rng s j < pFactor" "[0..<15]"] by simp
  ultimately have "randomLevel s = (int (Suc ?k), s\<lparr>rng := snd (randomLevel_loop 1 (rng s))\<rparr>)
      \<and> 1 \<le> Suc ?k \<and> Suc ?k \<le> 16"
    by (simp add: randomLevel_def case_prod_beta)
  then show ?thesis by blast
qed

lemma dropWhile_less_Entry:
  "sorted_wrt less_Entry es \<Longrightarrow> y \<in> set (dropWhile (\<lambda>y. less_Entry y x) es) \<Longrightarrow>
   \<not> less_Entry y x"
proof (induction es)
  case Nil
  then show ?case by simp
next
  case (Cons z es)
  show ?case
  proof (cases "less_Entry z x")
    case True
    with Cons show ?thesis by simp
  next
    case False
    with Cons.prems have "y = z \<or> (y \<in> set es \<and> less_Entry z y)" by auto
    with False show ?thesis by (auto dest: less_Entry_trans)
  qed
qed

lemma sorted_insert_ranked:
  assumes "sorted_wrt less_Entry es" and "x \<notin> set es"
  shows "sorted_wrt less_Entry (insert_ranked x es)"
proof -
  let ?P = "\<lambda>y. less_Entry y x"
  have es: "es = takeWhile ?P es @ dropWhile ?P es" by simp
  with assms(1) have s: "sorted_wrt less_Entry (takeWhile ?P es @ dropWhile ?P es)" by simp
  have a: "\<forall>y\<in>set (takeWhile ?P es). less_Entry y x"
    by (auto dest: set_takeWhileD)
  have b: "\<forall>y\<in>set (dropWhile ?P es). less_Entry x y"
  proof
    fix y assume y: "y \<in> set (dropWhile ?P es)"
    then have "\<not> less_Entry y x" by (rule dropWhile_less_Entry [OF assms(1)])
    moreover from y have "y \<in> set es" by (rule set_dropWhileD)
    with assms(2) have "y \<noteq> x" by auto
    ultimately show "less_Entry x y" using less_Entry_total [of y x] by auto
  qed
  from s [unfolded sorted_wrt_append]
  have "sorted_wrt less_Entry (takeWhile ?P es)" "sorted_wrt less_Entry (dropWhile ?P es)"
    by blast+
  with a b show ?thesis
    by (auto simp: insert_ranked_def sorted_wrt_append intro: less_Entry_trans)
qed

lemma subseq_insert_both:
  assumes "subseq xs ys" and "sorted_chain st ys"
  shows "subseq (takeWhile (before st x) xs @ n # dropWhile (before st x) xs)
                (takeWhile (before st x) ys @ n # dropWhile (before st x) ys)"
proof -
  from assms have sx: "sorted_chain st xs" by (rule sorted_chain_subseq)
  have "subseq (filter (before st x) xs @ n # filter (\<lambda>a. \<not> before st x a) xs)
               (filter (before st x) ys @ n # filter (\<lambda>a. \<not> before st x a) ys)"
    using assms(1) by (intro list_emb_append_mono subseq_Cons2 subseq_filter)
  then show ?thesis
    by (simp add: takeWhile_before_filter dropWhile_before_filter sx assms(2))
qed

lemma subseq_insert_right:
  assumes "subseq xs ys"
  shows "subseq xs (takeWhile P ys @ n # dropWhile P ys)"
proof -
  have "subseq (takeWhile P ys @ dropWhile P ys) (takeWhile P ys @ n # dropWhile P ys)"
    by (intro list_emb_append_mono list_emb_Cons) simp_all
  then have "subseq ys (takeWhile P ys @ n # dropWhile P ys)" by simp
  with assms show ?thesis by (rule subseq_order.trans)
qed

lemma Update_insert_inv:
  assumes inv: "sl_inv s L" and absent: "byUser s u = None"
  shows "\<exists>s' L'. Update_insert u sc s = ok s' \<and> sl_inv s' L' \<and>
           map (\<lambda>a. e (cells s' a)) (L' 0) =
             insert_ranked \<lparr>User = u, Score = sc\<rparr> (map (\<lambda>a. e (cells s a)) (L 0))"
proof -
  let ?st = "cells s"
  define x where "x = \<lparr>User = u, Score = sc\<rparr>"
  define n where "n = nalloc s"
  from sl_inv_levels [OF inv] obtain l where l: "lvl s = int l" and l1: "1 \<le> l"
    and l16: "l \<le> 16" by blast
  from inv have sh: "shape ?st L" and hd: "head s = Some 0"
    and empty: "\<And>i. l \<le> i \<Longrightarrow> L i = []"
    and bound: "\<And>a. a \<in> set (L 0) \<Longrightarrow> a < n" and na: "0 < n"
    and by_user: "\<And>v p. byUser s v = Some p \<longleftrightarrow>
        (\<exists>a\<in>set (L 0). p = Some a \<and> User (e (cells s a)) = v)"
    and nonempty: "l = 1 \<or> L (l - 1) \<noteq> []"
    by (simp_all add: sl_inv_def l n_def)
  have nouser: "User (e (?st a)) \<noteq> u" if "a \<in> set (L 0)" for a
    using by_user [of u "Some a"] that absent by auto
  have fresh: "n \<notin> set (0 # L j)" for j
    using shape_set_le [OF sh, of 0 j] bound na by auto
  define upd where "upd = (\<lambda>j. if j < l then Some (lastBefore ?st x (L j)) else None)"
  have sea: "search ?st x (lvl s - 1) (head s) (\<lambda>_. None) = ok upd"
    unfolding upd_def by (rule search_inv [OF inv l])
  from randomLevel_range [of s] obtain k r'
    where rl: "randomLevel s = (int k, s\<lparr>rng := r'\<rparr>)" and k1: "1 \<le> k" and k16: "k \<le> 16"
    by blast
  define m where "m = max l k"
  define upd' where "upd' = (\<lambda>j. if j < m then Some (lastBefore ?st x (L j)) else None)"
  define s2 where "s2 = s\<lparr>rng := r', lvl := int m\<rparr>"
  have midT: "fill (Some 0) (int l) (int k) upd = ok upd' \<and> m = k" if "l < k"
  proof -
    from that have m: "m = k" by (simp add: m_def)
    have "(\<lambda>j. if l \<le> j \<and> j < k then Some 0 else upd j) = upd'"
    proof (rule ext)
      fix j
      show "(if l \<le> j \<and> j < k then Some 0 else upd j) = upd' j"
        using that empty [of j] by (auto simp: upd_def upd'_def m lastBefore_def)
    qed
    with fill_spec [OF k16, of "Some 0" l upd] m show ?thesis by simp
  qed
  have midF: "upd = upd' \<and> s2 = s\<lparr>rng := r'\<rparr>" if "\<not> l < k"
  proof -
    from that have m: "m = l" by (simp add: m_def)
    then show ?thesis using l by (simp add: upd_def upd'_def s2_def)
  qed
  define st0 where "st0 = ?st(n := \<lparr>e = x, nexts = (\<lambda>_. None)\<rparr>)"
  define pre where "pre = (\<lambda>j. takeWhile (before ?st x) (L j))"
  define post where "post = (\<lambda>j. dropWhile (before ?st x) (L j))"
  have split: "pre j @ post j = L j" for j by (simp add: pre_def post_def)
  have old: "st0 a = ?st a" if "a \<in> set (0 # L j)" for a j
    using that fresh [of j] by (auto simp: st0_def)
  have path0: "path st0 j 0 (L j)" if "j < 16" for j
  proof -
    have "path st0 j 0 (L j) = path ?st j 0 (L j)"
      by (rule path_cong_level) (simp add: old)
    with shape_path [OF sh that] show ?thesis by simp
  qed
  have pre_splice: "path st0 j 0 (pre j @ post j) \<and> distinct (0 # pre j @ post j) \<and>
            n \<notin> set (0 # pre j @ post j) \<and> upd' j = Some (last (0 # pre j))"
    if "0 \<le> j" "j < k" for j
  proof -
    from that k16 have "j < 16" by simp
    moreover from that have "j < m" by (simp add: m_def)
    then have "upd' j = Some (last (0 # pre j))"
      by (simp add: upd'_def lastBefore_def pre_def)
    ultimately show ?thesis
      using path0 [of j] shape_distinct [OF sh, of j] fresh [of j]
      by (simp add: split)
  qed
  from splice_spec [OF k16 pre_splice, of 0] obtain st'
    where spl: "splice upd' n 0 (int k) st0 = ok st'"
      and e': "\<And>a. e (st' a) = e (st0 a)"
      and p': "\<And>j. j < k \<Longrightarrow> path st' j 0 (pre j @ n # post j)"
      and fr': "\<And>j a. k \<le> j \<Longrightarrow> nexts (st' a) j = nexts (st0 a) j"
    by (auto simp: not_less)
  define s' where "s' = s2\<lparr>cells := st', nalloc := Suc n, byUser := (byUser s2)(u \<mapsto> Some n)\<rparr>"
  define L' where "L' = (\<lambda>j. if j < k then pre j @ n # post j else L j)"
  have res: "Update_insert u sc s = ok s'"
  proof (cases "l < k")
    case True
    with midT have "fill (Some 0) (int l) (int k) upd = ok upd'" "m = k" by simp_all
    with True sea rl spl show ?thesis
      by (simp add: Update_insert_def Let_def x_def [symmetric] l hd s'_def s2_def
          n_def st0_def)
  next
    case False
    with midF have "upd = upd'" "s2 = s\<lparr>rng := r'\<rparr>" by simp_all
    with False sea rl spl show ?thesis
      by (simp add: Update_insert_def Let_def x_def [symmetric] l hd s'_def
          n_def st0_def)
  qed
  have en: "e (st' n) = x" by (simp add: e' st0_def)
  have eo: "e (st' a) = e (?st a)" if "a \<in> set (L j)" for a j
    using that old [of a j] by (simp add: e')
  have paths: "path st' j 0 (L' j)" if "j < 16" for j
  proof (cases "j < k")
    case True
    then show ?thesis by (simp add: L'_def p')
  next
    case False
    then have "path st' j 0 (L j) = path st0 j 0 (L j)"
      by (intro path_cong_level fr') simp
    with False path0 [OF that] show ?thesis by (simp add: L'_def)
  qed
  have sub: "subseq (L' (Suc i)) (L' i)" for i
  proof -
    from sh have si: "subseq (L (Suc i)) (L i)" by (simp add: shape_def)
    consider "Suc i < k" | "i < k" "\<not> Suc i < k" | "\<not> i < k" by linarith
    then show ?thesis
    proof cases
      case 1
      with subseq_insert_both [OF si shape_sorted [OF sh]] show ?thesis
        by (simp add: L'_def pre_def post_def)
    next
      case 2
      with subseq_insert_right [OF si] show ?thesis
        by (simp add: L'_def pre_def post_def)
    next
      case 3
      with si show ?thesis by (simp add: L'_def)
    qed
  qed
  let ?es = "map (\<lambda>a. e (?st a)) (L 0)"
  have L'0: "L' 0 = pre 0 @ n # post 0" using k1 by (simp add: L'_def)
  have bf: "before ?st x = (\<lambda>y. less_Entry y x) \<circ> (\<lambda>a. e (?st a))"
    by (rule ext) (simp add: before_def)
  have "map (\<lambda>a. e (st' a)) (pre 0) = map (\<lambda>a. e (?st a)) (pre 0)"
    by (rule map_cong [OF refl], rule eo [of _ 0]) (auto simp: pre_def dest: set_takeWhileD)
  moreover have "map (\<lambda>a. e (st' a)) (post 0) = map (\<lambda>a. e (?st a)) (post 0)"
    by (rule map_cong [OF refl], rule eo [of _ 0]) (auto simp: post_def dest: set_dropWhileD)
  ultimately have ents: "map (\<lambda>a. e (st' a)) (L' 0) = insert_ranked x ?es"
    by (simp add: L'0 en insert_ranked_def pre_def post_def bf takeWhile_map dropWhile_map)
  have "x \<notin> set ?es"
  proof
    assume "x \<in> set ?es"
    then obtain a where "a \<in> set (L 0)" "e (?st a) = x" by auto
    with nouser [of a] show False by (simp add: x_def)
  qed
  moreover from shape_sorted [OF sh, of 0] have "sorted_wrt less_Entry ?es"
    by (simp add: sorted_chain_def)
  ultimately have "sorted_wrt less_Entry (insert_ranked x ?es)"
    by (intro sorted_insert_ranked)
  with ents have sorted: "sorted_chain st' (L' 0)" by (simp add: sorted_chain_def)
  have setL'0: "set (L' 0) = insert n (set (L 0))"
    unfolding L'0 using split [of 0, symmetric] by (metis Un_insert_right set_append list.simps(15))
  have nohead: "0 \<notin> set (L' 0)"
    using shape_no_head [OF sh, of 0] na by (simp add: setL'0)
  have shape': "shape st' L'"
    unfolding shape_def using paths sub sorted nohead by blast
  have by_user': "byUser s' v = Some p \<longleftrightarrow>
        (\<exists>a\<in>set (L' 0). p = Some a \<and> User (e (st' a)) = v)" for v p
  proof (cases "v = u")
    case True
    have "(\<exists>a\<in>set (L 0). p = Some a \<and> User (e (st' a)) = u) = False"
      using nouser eo [of _ 0] by auto
    with True show ?thesis
      by (auto simp: s'_def s2_def setL'0 en x_def)
  next
    case False
    have "(\<exists>a\<in>set (L 0). p = Some a \<and> User (e (st' a)) = v) \<longleftrightarrow>
          (\<exists>a\<in>set (L 0). p = Some a \<and> User (e (?st a)) = v)"
      using eo [of _ 0] by auto
    with False by_user [of v p] show ?thesis
      by (auto simp: s'_def s2_def setL'0 en x_def)
  qed
  have ne': "m = 1 \<or> L' (m - 1) \<noteq> []"
  proof (cases "m - 1 < k")
    case True
    then show ?thesis by (simp add: L'_def)
  next
    case False
    with k1 have "m = l" "l \<noteq> 1" by (auto simp: m_def)
    with nonempty False show ?thesis by (simp add: L'_def)
  qed
  have "sl_inv s' L'"
    unfolding sl_inv_def
  proof (intro conjI)
    show "head s' = Some 0" by (simp add: s'_def s2_def hd)
    show "1 \<le> lvl s'" using l1 by (simp add: s'_def s2_def m_def)
    show "lvl s' \<le> maxLevel" using l16 k16 by (simp add: s'_def s2_def m_def maxLevel_def)
    show "shape (cells s') L'" using shape' by (simp add: s'_def)
    show "\<forall>i. nat (lvl s') \<le> i \<longrightarrow> L' i = []"
      using empty by (auto simp: s'_def s2_def L'_def m_def)
    show "\<forall>a\<in>set (L' 0). a < nalloc s'"
      using bound by (auto simp: s'_def setL'0 less_Suc_eq)
    show "0 < nalloc s'" by (simp add: s'_def)
    show "\<forall>v p. byUser s' v = Some p \<longleftrightarrow>
        (\<exists>a\<in>set (L' 0). p = Some a \<and> User (e (cells s' a)) = v)"
      using by_user' by (simp add: s'_def)
    show "lvl s' = 1 \<or> L' (nat (lvl s') - 1) \<noteq> []"
      using ne' by (auto simp: s'_def s2_def)
  qed
  moreover have "map (\<lambda>a. e (cells s' a)) (L' 0) = insert_ranked x ?es"
    using ents by (simp add: s'_def)
  ultimately show ?thesis using res unfolding x_def by blast
qed

section \<open>The list refines the ranking\<close>

text \<open>
  Every call returns on a well-formed list, the result is well formed, and its entries
  are given by \<open>abs_update\<close> and \<open>abs_remove\<close>; TopN and Get read the ranking only. The
  values of the generator do not appear on the right-hand sides.
\<close>

lemma ok_eq [simp]: "ok x = ok y \<longleftrightarrow> x = y"
  by (simp add: ok_def)

lemma represents_New: "represents (NewSkipList r) []"
proof -
  have "sl_inv (NewSkipList r) (\<lambda>_. [])"
    by (simp add: sl_inv_def NewSkipList_def shape_def maxLevel_def zero_node_def)
  then show ?thesis unfolding represents_def by (intro exI [of _ "\<lambda>_. []"]) simp
qed

lemma represents_rng: "represents s es \<Longrightarrow> represents (s\<lparr>rng := r\<rparr>) es"
  by (auto simp: represents_def sl_inv_def)

lemma represents_sorted:
  assumes "represents s es"
  shows "sorted_wrt less_Entry es" and "distinct (map User es)"
proof -
  from assms obtain L where inv: "sl_inv s L" and es: "es = map (\<lambda>a. e (cells s a)) (L 0)"
    by (auto simp: represents_def)
  then have sh: "shape (cells s) L" by (simp add: sl_inv_def)
  from shape_sorted [OF sh, of 0] es show "sorted_wrt less_Entry es"
    by (simp add: sorted_chain_def)
  have "inj_on (\<lambda>a. User (e (cells s a))) (set (L 0))"
    by (rule inj_onI) (rule sl_inv_user_unique [OF inv])
  moreover from shape_distinct [OF sh, of 0] have "distinct (L 0)" by simp
  ultimately show "distinct (map User es)"
    by (simp add: es distinct_map comp_def)
qed

lemma map_removeAll_user:
  "(\<And>a. a \<in> set xs \<Longrightarrow> (User (g a) = u) = (a = t)) \<Longrightarrow>
   map g (removeAll t xs) = filter (\<lambda>y. User y \<noteq> u) (map g xs)"
  by (induction xs) auto

lemma Remove_represents:
  assumes "represents s es"
  shows "\<exists>s'. Remove u s = ok s' \<and> represents s' (abs_remove u es)"
proof -
  from assms obtain L where inv: "sl_inv s L" and es: "es = map (\<lambda>a. e (cells s a)) (L 0)"
    by (auto simp: represents_def)
  then have by_user: "\<And>v p. byUser s v = Some p \<longleftrightarrow>
        (\<exists>a\<in>set (L 0). p = Some a \<and> User (e (cells s a)) = v)"
    by (simp add: sl_inv_def)
  show ?thesis
  proof (cases "byUser s u")
    case None
    have "User y \<noteq> u" if "y \<in> set es" for y
    proof
      assume "User y = u"
      with that es obtain a where "a \<in> set (L 0)" "User (e (cells s a)) = u" by auto
      with by_user [of u "Some a"] None show False by auto
    qed
    then have "abs_remove u es = es" by (simp add: abs_remove_def filter_id_conv)
    with None assms show ?thesis by (simp add: Remove_def)
  next
    case (Some p)
    with by_user [of u p] obtain t where p: "p = Some t" and tin: "t \<in> set (L 0)"
      and u: "User (e (cells s t)) = u" by auto
    from removeLocked_inv [OF inv tin u] obtain s'
      where r: "removeLocked u (e (cells s t)) s = ok s'"
        and inv': "sl_inv s' (\<lambda>i. removeAll t (L i))"
        and e': "\<And>a. e (cells s' a) = e (cells s a)"
      by blast
    have "map (\<lambda>a. e (cells s a)) (removeAll t (L 0)) = abs_remove u es"
      unfolding abs_remove_def es
    proof (rule map_removeAll_user)
      fix a assume "a \<in> set (L 0)"
      with sl_inv_user_unique [OF inv this tin] u
      show "(User (e (cells s a)) = u) = (a = t)" by auto
    qed
    with inv' have "represents s' (abs_remove u es)"
      unfolding represents_def by (intro exI [of _ "\<lambda>i. removeAll t (L i)"]) (simp add: e')
    with Some p r show ?thesis by (simp add: Remove_def)
  qed
qed

lemma Update_represents:
  assumes "represents s es"
  shows "\<exists>s'. Update u sc s = ok s' \<and> represents s' (abs_update u sc es)"
proof -
  have "\<exists>s1. (case byUser s u of
            Some old \<Rightarrow>
              (case old of
                 None \<Rightarrow> raise NilDeref
               | Some a \<Rightarrow> removeLocked u (e (cells s a)) s)
          | None \<Rightarrow> ok s) = ok s1 \<and> represents s1 (abs_remove u es)"
    using Remove_represents [OF assms, of u] by (simp add: Remove_def)
  then obtain s1 where first: "(case byUser s u of
            Some old \<Rightarrow>
              (case old of
                 None \<Rightarrow> raise NilDeref
               | Some a \<Rightarrow> removeLocked u (e (cells s a)) s)
          | None \<Rightarrow> ok s) = ok s1" and r1: "represents s1 (abs_remove u es)"
    by blast
  from r1 obtain L where inv: "sl_inv s1 L"
    and es1: "abs_remove u es = map (\<lambda>a. e (cells s1 a)) (L 0)"
    by (auto simp: represents_def)
  then have by_user: "\<And>v p. byUser s1 v = Some p \<longleftrightarrow>
        (\<exists>a\<in>set (L 0). p = Some a \<and> User (e (cells s1 a)) = v)"
    by (simp add: sl_inv_def)
  have absent: "byUser s1 u = None"
  proof (cases "byUser s1 u")
    case None
    then show ?thesis .
  next
    case (Some p)
    with by_user [of u p] obtain a where "a \<in> set (L 0)" "User (e (cells s1 a)) = u"
      by auto
    then have "\<exists>y\<in>set (abs_remove u es). User y = u" unfolding es1 by auto
    then show ?thesis by (simp add: abs_remove_def)
  qed
  from Update_insert_inv [OF inv absent, of sc] obtain s' L'
    where "Update_insert u sc s1 = ok s'" "sl_inv s' L'"
      "map (\<lambda>a. e (cells s' a)) (L' 0) =
         insert_ranked \<lparr>User = u, Score = sc\<rparr> (map (\<lambda>a. e (cells s1 a)) (L 0))"
    by blast
  with first es1 show ?thesis
    by (auto simp: Update_def represents_def abs_update_def abs_remove_def)
qed

lemma run_represents:
  "represents s es \<Longrightarrow> \<exists>s'. run cs s = ok s' \<and> represents s' (abs_run cs es)"
proof (induction cs arbitrary: s es)
  case Nil
  then show ?case by simp
next
  case (Cons c cs)
  have "\<exists>s1. apply_call c s = ok s1 \<and> represents s1 (abs_call c es)"
    using Update_represents [OF Cons.prems] Remove_represents [OF Cons.prems]
    by (cases c) simp_all
  then obtain s1 where "apply_call c s = ok s1" "represents s1 (abs_call c es)" by blast
  with Cons.IH [of s1 "abs_call c es"] show ?case by simp
qed

lemma TopN_represents:
  assumes "represents s es"
  shows "TopN s n = abs_TopN es n"
proof -
  from assms obtain L where inv: "sl_inv s L" and es: "es = map (\<lambda>a. e (cells s a)) (L 0)"
    by (auto simp: represents_def)
  then have "path (cells s) 0 0 (L 0)" and hd: "head s = Some 0"
    by (simp_all add: sl_inv_def shape_def)
  from TopN_loop_path [OF this(1), of n "[]"] hd es show ?thesis
    by (simp add: TopN_def abs_TopN_def take_map)
qed

lemma find_distinct_user:
  "distinct (map User es) \<Longrightarrow> y \<in> set es \<Longrightarrow> find (\<lambda>z. User z = User y) es = Some y"
  by (induction es) (auto simp: rev_image_eqI)

lemma Get_represents:
  assumes "represents s es"
  shows "Get s u = abs_Get es u"
proof -
  from assms obtain L where inv: "sl_inv s L" and es: "es = map (\<lambda>a. e (cells s a)) (L 0)"
    by (auto simp: represents_def)
  then have by_user: "\<And>v p. byUser s v = Some p \<longleftrightarrow>
        (\<exists>a\<in>set (L 0). p = Some a \<and> User (e (cells s a)) = v)"
    by (simp add: sl_inv_def)
  show ?thesis
  proof (cases "byUser s u")
    case None
    have "\<not> (\<exists>y\<in>set es. User y = u)"
    proof
      assume "\<exists>y\<in>set es. User y = u"
      with es obtain a where "a \<in> set (L 0)" "User (e (cells s a)) = u" by auto
      with by_user [of u "Some a"] None show False by auto
    qed
    then have "find (\<lambda>y. User y = u) es = None" by (simp add: find_None_iff)
    with None show ?thesis by (simp add: Get_def abs_Get_def)
  next
    case (Some p)
    with by_user [of u p] obtain t where p: "p = Some t" and tin: "t \<in> set (L 0)"
      and u: "User (e (cells s t)) = u" by auto
    from tin es have "e (cells s t) \<in> set es" by simp
    from find_distinct_user [OF represents_sorted(2) [OF assms] this] u
    have "find (\<lambda>y. User y = u) es = Some (e (cells s t))" by simp
    with Some p show ?thesis by (simp add: Get_def abs_Get_def)
  qed
qed

section \<open>Properties of the leaderboard\<close>

lemma reach_represents:
  assumes "run cs (NewSkipList r) = Some (Inr s)"
  shows "represents s (abs_run cs [])"
proof -
  from run_represents [OF represents_New, of cs r] obtain s'
    where "run cs (NewSkipList r) = ok s'" "represents s' (abs_run cs [])" by blast
  with assms show ?thesis by (simp add: ok_def)
qed

lemma run_total: "\<exists>s. run cs (NewSkipList r) = Some (Inr s)"
  using run_represents [OF represents_New, of cs r] by (auto simp: ok_def)

lemma abs_TopN_Inr:
  "abs_TopN es n = Inr out \<Longrightarrow> out = take (nat n) es"
  by (auto simp: abs_TopN_def split: if_splits)

lemma find_skip: "\<forall>y\<in>set xs. \<not> P y \<Longrightarrow> find P (xs @ zs) = find P zs"
  by (induction xs) auto

lemma abs_Get_update:
  "abs_Get (abs_update u sc es) u = Inr (\<lparr>User = u, Score = sc\<rparr>, True)"
proof -
  let ?ys = "filter (\<lambda>y. User y \<noteq> u) es"
  let ?x = "\<lparr>User = u, Score = sc\<rparr>"
  have "\<forall>y\<in>set (takeWhile (\<lambda>y. less_Entry y ?x) ?ys). \<not> User y = u"
    by (auto dest: set_takeWhileD)
  then have "find (\<lambda>y. User y = u) (takeWhile (\<lambda>y. less_Entry y ?x) ?ys @
                 ?x # dropWhile (\<lambda>y. less_Entry y ?x) ?ys) =
             find (\<lambda>y. User y = u) (?x # dropWhile (\<lambda>y. less_Entry y ?x) ?ys)"
    by (rule find_skip)
  then show ?thesis
    by (simp add: abs_Get_def abs_update_def insert_ranked_def)
qed

lemma abs_Get_remove: "abs_Get (abs_remove u es) u = Inr (zero_Entry, False)"
proof -
  have "find (\<lambda>y. User y = u) (filter (\<lambda>y. User y \<noteq> u) es) = None"
    by (simp add: find_None_iff)
  then show ?thesis by (simp add: abs_Get_def abs_remove_def)
qed

lemma abs_update_idem: "abs_update u sc (abs_update u sc es) = abs_update u sc es"
proof -
  let ?ys = "filter (\<lambda>y. User y \<noteq> u) es"
  let ?P = "\<lambda>y. less_Entry y \<lparr>User = u, Score = sc\<rparr>"
  have "filter (\<lambda>y. User y \<noteq> u) (takeWhile ?P ?ys) = takeWhile ?P ?ys"
    by (auto simp: filter_id_conv dest: set_takeWhileD)
  moreover have "filter (\<lambda>y. User y \<noteq> u) (dropWhile ?P ?ys) = dropWhile ?P ?ys"
    by (auto simp: filter_id_conv dest: set_dropWhileD)
  ultimately have "filter (\<lambda>y. User y \<noteq> u) (insert_ranked \<lparr>User = u, Score = sc\<rparr> ?ys) = ?ys"
    by (simp add: insert_ranked_def)
  then show ?thesis by (simp add: abs_update_def)
qed

text \<open>The equations that evaluate the model on a concrete input.\<close>

lemmas evaluation =
  ok_def raise_def bnd_def Let_def maxLevel_def pFactor_def zero_Entry_def zero_node_def
  NewSkipList_def randomLevel_loop.simps randomLevel_def less_Entry_def walk.simps
  search.simps unlink.simps shrink.simps removeLocked_def Remove_def fill.simps
  splice.simps Update_insert_def Update_def entrySize_def maxAlloc_def
  TopN_loop.simps TopN_def Get_def

text \<open>
  C1. After any finite sequence of Update and Remove calls on a fresh list (the calls all
  return), whatever TopN returns for any k is strictly sorted by descending score, ties
  broken by ascending user, and names no user twice.
\<close>

theorem TopN_order_invariant:
  "\<exists>s. run cs (NewSkipList r) = Some (Inr s) \<and>
     (\<forall>k out. TopN s k = Inr out \<longrightarrow>
        sorted_wrt (\<lambda>a b. sint (Score b) < sint (Score a) \<or>
                            (Score a = Score b \<and> User a < User b)) out \<and>
        distinct (map User out))"
proof -
  from run_total obtain s where s: "run cs (NewSkipList r) = Some (Inr s)" by blast
  from reach_represents [OF s] have rep: "represents s (abs_run cs [])" .
  have "sorted_wrt (\<lambda>a b. sint (Score b) < sint (Score a) \<or>
                            (Score a = Score b \<and> User a < User b)) out \<and>
        distinct (map User out)" if "TopN s k = Inr out" for k out
  proof -
    from that TopN_represents [OF rep, of k] have "abs_TopN (abs_run cs []) k = Inr out"
      by simp
    then have out: "out = take (nat k) (abs_run cs [])" by (rule abs_TopN_Inr)
    have "less_Entry = (\<lambda>a b. sint (Score b) < sint (Score a) \<or>
                            (Score a = Score b \<and> User a < User b))"
      by (intro ext) (rule less_Entry_iff)
    with represents_sorted(1) [OF rep] have "sorted_wrt (\<lambda>a b. sint (Score b) < sint (Score a) \<or>
                            (Score a = Score b \<and> User a < User b)) (abs_run cs [])"
      by simp
    then have "sorted_wrt (\<lambda>a b. sint (Score b) < sint (Score a) \<or>
                            (Score a = Score b \<and> User a < User b)) out"
      unfolding out by (rule sorted_wrt_take)
    moreover from represents_sorted(2) [OF rep] have "distinct (map User out)"
      unfolding out take_map [symmetric] by (rule distinct_take)
    ultimately show ?thesis by simp
  qed
  with s show ?thesis by blast
qed

theorem TopN_order_invariant_witness:
  "\<exists>s. run [Upd ''b'' 10, Upd ''a'' 10, Upd ''c'' 15, Upd ''d'' 7, Rem ''d'']
          (NewSkipList (\<lambda>k. if k = 0 then 1 / 10 else 1 / 2)) = Some (Inr s) \<and>
     TopN s 5 = Inr [\<lparr>User = ''c'', Score = 15\<rparr>, \<lparr>User = ''a'', Score = 10\<rparr>,
                     \<lparr>User = ''b'', Score = 10\<rparr>] \<and>
     sorted_wrt (\<lambda>a b. sint (Score b) < sint (Score a) \<or>
                            (Score a = Score b \<and> User a < User b))
       [\<lparr>User = ''c'', Score = 15\<rparr>, \<lparr>User = ''a'', Score = 10\<rparr>,
        \<lparr>User = ''b'', Score = 10\<rparr>] \<and>
     distinct (map User [\<lparr>User = ''c'', Score = 15\<rparr>, \<lparr>User = ''a'', Score = 10\<rparr>,
                     \<lparr>User = ''b'', Score = 10\<rparr>])"
proof -
  let ?cs = "[Upd ''b'' 10, Upd ''a'' 10, Upd ''c'' 15, Upd ''d'' 7, Rem ''d'']"
  let ?r = "\<lambda>k::nat. if k = 0 then 1 / 10 else (1 / 2 :: real)"
  let ?out = "[\<lparr>User = ''c'', Score = 15\<rparr>, \<lparr>User = ''a'', Score = 10\<rparr>,
               \<lparr>User = ''b'', Score = 10\<rparr>]"
  have ev: "\<exists>s. run ?cs (NewSkipList ?r) = Some (Inr s) \<and> TopN s 5 = Inr ?out"
    by (simp add: evaluation)
  then obtain s0 where e1: "run ?cs (NewSkipList ?r) = Some (Inr s0)"
    and e2: "TopN s0 5 = Inr ?out" by (elim exE conjE)
  from TopN_order_invariant [of ?cs ?r] obtain s
    where s: "run ?cs (NewSkipList ?r) = Some (Inr s)"
      and all: "\<forall>k out. TopN s k = Inr out \<longrightarrow>
        sorted_wrt (\<lambda>a b. sint (Score b) < sint (Score a) \<or>
                            (Score a = Score b \<and> User a < User b)) out \<and>
        distinct (map User out)"
    by (elim exE conjE)
  from e1 [symmetric] s have "Some (Inr s0 :: panic + SkipList) = Some (Inr s)"
    by (rule trans)
  then have "s0 = s" by simp
  with e2 have t: "TopN s 5 = Inr ?out" by simp
  from all [rule_format, OF t] have "sorted_wrt (\<lambda>a b. sint (Score b) < sint (Score a) \<or>
                            (Score a = Score b \<and> User a < User b)) ?out"
    and "distinct (map User ?out)" by (rule conjunct1, rule conjunct2)
  with s t show ?thesis by (intro exI [of _ s] conjI)
qed

text \<open>
  C2. In every state reached from a fresh list, Update(u, s) returns and Get(u) then
  returns the entry {u, s} with found = true.
\<close>

theorem Update_Get_roundtrip:
  "run cs (NewSkipList r) = Some (Inr s) \<Longrightarrow>
   \<exists>s'. Update u sc s = Some (Inr s') \<and> Get s' u = Inr (\<lparr>User = u, Score = sc\<rparr>, True)"
proof -
  assume "run cs (NewSkipList r) = Some (Inr s)"
  then have "represents s (abs_run cs [])" by (rule reach_represents)
  from Update_represents [OF this, of u sc] obtain s'
    where u: "Update u sc s = ok s'" and rep: "represents s' (abs_update u sc (abs_run cs []))"
    by blast
  from Get_represents [OF rep, of u] have "Get s' u = Inr (\<lparr>User = u, Score = sc\<rparr>, True)"
    by (simp add: abs_Get_update)
  with u show ?thesis by (simp add: ok_def)
qed

theorem Update_Get_roundtrip_witness:
  "\<exists>s s'. run [Upd ''a'' 10, Upd ''b'' 20] (NewSkipList (\<lambda>k. 1 / 2)) = Some (Inr s) \<and>
     Update ''a'' 25 s = Some (Inr s') \<and>
     Get s' ''a'' = Inr (\<lparr>User = ''a'', Score = 25\<rparr>, True)"
proof -
  have "\<exists>s. run [Upd ''a'' 10, Upd ''b'' 20] (NewSkipList (\<lambda>k. 1 / 2)) = Some (Inr s)"
    by (simp add: evaluation)
  then obtain s where s: "run [Upd ''a'' 10, Upd ''b'' 20] (NewSkipList (\<lambda>k. 1 / 2)) = Some (Inr s)"
    by (elim exE)
  from Update_Get_roundtrip [OF s, of "''a''" 25] obtain s'
    where "Update ''a'' 25 s = Some (Inr s')"
      and "Get s' ''a'' = Inr (\<lparr>User = ''a'', Score = 25\<rparr>, True)"
    by (elim exE conjE)
  with s show ?thesis by (intro exI [of _ s] exI [of _ s'] conjI)
qed

text \<open>
  C3. In every state reached from a fresh list, Remove(u) returns; Get(u) then returns
  the zero Entry with found = false, and no sequence that TopN returns holds an entry
  of user u.
\<close>

theorem Remove_then_absent:
  "run cs (NewSkipList r) = Some (Inr s) \<Longrightarrow>
   \<exists>s'. Remove u s = Some (Inr s') \<and>
     Get s' u = Inr (\<lparr>User = [], Score = 0\<rparr>, False) \<and>
     (\<forall>n out. TopN s' n = Inr out \<longrightarrow> (\<forall>x\<in>set out. User x \<noteq> u))"
proof -
  assume "run cs (NewSkipList r) = Some (Inr s)"
  then have "represents s (abs_run cs [])" by (rule reach_represents)
  from Remove_represents [OF this, of u] obtain s'
    where u: "Remove u s = ok s'" and rep: "represents s' (abs_remove u (abs_run cs []))"
    by blast
  from Get_represents [OF rep, of u] have g: "Get s' u = Inr (\<lparr>User = [], Score = 0\<rparr>, False)"
    by (simp add: abs_Get_remove zero_Entry_def)
  have t: "\<forall>x\<in>set out. User x \<noteq> u" if "TopN s' n = Inr out" for n out
  proof -
    from that TopN_represents [OF rep, of n]
    have "abs_TopN (abs_remove u (abs_run cs [])) n = Inr out" by simp
    then have "out = take (nat n) (abs_remove u (abs_run cs []))" by (rule abs_TopN_Inr)
    then have "set out \<subseteq> set (abs_remove u (abs_run cs []))" by (simp add: set_take_subset)
    then show ?thesis by (auto simp: abs_remove_def)
  qed
  from u g t show ?thesis by (auto simp: ok_def)
qed

theorem Remove_then_absent_witness:
  "\<exists>s s'. run [Upd ''a'' 10, Upd ''b'' 20, Upd ''c'' 15]
            (NewSkipList (\<lambda>k. if k = 2 then 1 / 8 else 1 / 2)) = Some (Inr s) \<and>
     Remove ''b'' s = Some (Inr s') \<and>
     Get s' ''b'' = Inr (\<lparr>User = [], Score = 0\<rparr>, False) \<and>
     TopN s' 3 = Inr [\<lparr>User = ''c'', Score = 15\<rparr>, \<lparr>User = ''a'', Score = 10\<rparr>] \<and>
     (\<forall>x\<in>set [\<lparr>User = ''c'', Score = 15\<rparr>, \<lparr>User = ''a'', Score = 10\<rparr>]. User x \<noteq> ''b'')"
proof -
  let ?cs = "[Upd ''a'' 10, Upd ''b'' 20, Upd ''c'' 15]"
  let ?r = "\<lambda>k::nat. if k = 2 then 1 / 8 else (1 / 2 :: real)"
  let ?out = "[\<lparr>User = ''c'', Score = 15\<rparr>, \<lparr>User = ''a'', Score = 10\<rparr>]"
  have "\<exists>s s'. run ?cs (NewSkipList ?r) = Some (Inr s) \<and> Remove ''b'' s = Some (Inr s') \<and>
          TopN s' 3 = Inr ?out"
    by (simp add: evaluation)
  then obtain s s0 where s: "run ?cs (NewSkipList ?r) = Some (Inr s)"
    and e1: "Remove ''b'' s = Some (Inr s0)" and e2: "TopN s0 3 = Inr ?out"
    by (elim exE conjE)
  from Remove_then_absent [OF s, of "''b''"] obtain s'
    where r: "Remove ''b'' s = Some (Inr s')"
      and g: "Get s' ''b'' = Inr (\<lparr>User = [], Score = 0\<rparr>, False)"
      and all: "\<forall>n out. TopN s' n = Inr out \<longrightarrow> (\<forall>x\<in>set out. User x \<noteq> ''b'')"
    by (elim exE conjE)
  from e1 [symmetric] r have "Some (Inr s0 :: panic + SkipList) = Some (Inr s')"
    by (rule trans)
  then have "s0 = s'" by simp
  with e2 have t: "TopN s' 3 = Inr ?out" by simp
  from all [rule_format, OF t] have "\<forall>x\<in>set ?out. User x \<noteq> ''b''" by blast
  with s r g t show ?thesis by (intro exI [of _ s] exI [of _ s'] conjI)
qed

text \<open>
  C4. In every state reached from a fresh list, a second Update(u, s) right after the
  first changes nothing a caller can see: Get returns the same for every user and TopN
  the same for every n, whatever values the generator yields in the second call.
\<close>

theorem Update_idempotent:
  "run cs (NewSkipList r) = Some (Inr s) \<Longrightarrow>
   \<exists>s1. Update u sc s = Some (Inr s1) \<and>
     (\<forall>r'. \<exists>s2. Update u sc (s1\<lparr>rng := r'\<rparr>) = Some (Inr s2) \<and>
        (\<forall>v. Get s2 v = Get s1 v) \<and> (\<forall>n. TopN s2 n = TopN s1 n))"
proof -
  assume "run cs (NewSkipList r) = Some (Inr s)"
  then have "represents s (abs_run cs [])" by (rule reach_represents)
  from Update_represents [OF this, of u sc] obtain s1
    where u1: "Update u sc s = ok s1"
      and rep1: "represents s1 (abs_update u sc (abs_run cs []))"
    by blast
  have "\<exists>s2. Update u sc (s1\<lparr>rng := r'\<rparr>) = Some (Inr s2) \<and>
        (\<forall>v. Get s2 v = Get s1 v) \<and> (\<forall>n. TopN s2 n = TopN s1 n)" for r'
  proof -
    from rep1 have "represents (s1\<lparr>rng := r'\<rparr>) (abs_update u sc (abs_run cs []))"
      by (rule represents_rng)
    from Update_represents [OF this, of u sc] obtain s2
      where u2: "Update u sc (s1\<lparr>rng := r'\<rparr>) = ok s2"
        and rep2: "represents s2 (abs_update u sc (abs_run cs []))"
      by (auto simp: abs_update_idem)
    have "Get s2 v = Get s1 v" for v
      by (simp add: Get_represents [OF rep1] Get_represents [OF rep2])
    moreover have "TopN s2 n = TopN s1 n" for n
      by (simp add: TopN_represents [OF rep1] TopN_represents [OF rep2])
    ultimately show ?thesis using u2 by (simp add: ok_def)
  qed
  with u1 show ?thesis by (simp add: ok_def)
qed

theorem Update_idempotent_witness:
  "\<exists>s s1 s2. run [Upd ''a'' 10, Upd ''b'' 20] (NewSkipList (\<lambda>k. 1 / 2)) = Some (Inr s) \<and>
     Update ''a'' 30 s = Some (Inr s1) \<and>
     Update ''a'' 30 (s1\<lparr>rng := (\<lambda>k. if k < 3 then 1 / 8 else 1 / 2)\<rparr>) = Some (Inr s2) \<and>
     (\<forall>v. Get s2 v = Get s1 v) \<and> (\<forall>n. TopN s2 n = TopN s1 n) \<and>
     lvl s1 = 1 \<and> lvl s2 = 4"
proof -
  let ?cs = "[Upd ''a'' 10, Upd ''b'' 20]"
  let ?r = "\<lambda>k::nat. (1 / 2 :: real)"
  let ?r' = "\<lambda>k::nat. if k < 3 then 1 / 8 else (1 / 2 :: real)"
  have "\<exists>s s1 s2. run ?cs (NewSkipList ?r) = Some (Inr s) \<and>
     Update ''a'' 30 s = Some (Inr s1) \<and>
     Update ''a'' 30 (s1\<lparr>rng := ?r'\<rparr>) = Some (Inr s2) \<and> lvl s1 = 1 \<and> lvl s2 = 4"
    by (simp add: evaluation)
  then obtain s s1 s0 where s: "run ?cs (NewSkipList ?r) = Some (Inr s)"
    and e1: "Update ''a'' 30 s = Some (Inr s1)"
    and e2: "Update ''a'' 30 (s1\<lparr>rng := ?r'\<rparr>) = Some (Inr s0)"
    and l1: "lvl s1 = 1" and l0: "lvl s0 = 4"
    by (elim exE conjE)
  from Update_idempotent [OF s, of "''a''" 30] obtain t1
    where u1: "Update ''a'' 30 s = Some (Inr t1)"
      and all: "\<forall>r'. \<exists>s2. Update ''a'' 30 (t1\<lparr>rng := r'\<rparr>) = Some (Inr s2) \<and>
        (\<forall>v. Get s2 v = Get t1 v) \<and> (\<forall>n. TopN s2 n = TopN t1 n)"
    by (elim exE conjE)
  from e1 [symmetric] u1 have "Some (Inr s1 :: panic + SkipList) = Some (Inr t1)"
    by (rule trans)
  then have t1: "t1 = s1" by simp
  from all [rule_format, of ?r'] obtain s2
    where u2: "Update ''a'' 30 (s1\<lparr>rng := ?r'\<rparr>) = Some (Inr s2)"
      and g: "\<forall>v. Get s2 v = Get s1 v" and t: "\<forall>n. TopN s2 n = TopN s1 n"
    unfolding t1 by (elim exE conjE)
  from e2 [symmetric] u2 have "Some (Inr s0 :: panic + SkipList) = Some (Inr s2)"
    by (rule trans)
  then have "s0 = s2" by simp
  with l0 have l2: "lvl s2 = 4" by simp
  from s e1 u2 g t l1 l2 show ?thesis
    by (intro exI [of _ s] exI [of _ s1] exI [of _ s2] conjI)
qed

text \<open>
  C6. Remove of a user that is not present (Get reports found = false) returns normally
  and leaves the list as it was, so Get and TopN answer as before.
\<close>

theorem Remove_absent_noop:
  "Get s u = Inr (x, False) \<Longrightarrow>
   \<exists>s'. Remove u s = Some (Inr s') \<and> s' = s \<and>
     (\<forall>v. Get s' v = Get s v) \<and> (\<forall>n. TopN s' n = TopN s n)"
proof -
  assume "Get s u = Inr (x, False)"
  then have "byUser s u = None"
    by (auto simp: Get_def split: option.splits)
  then show ?thesis by (simp add: Remove_def ok_def)
qed

theorem Remove_absent_noop_witness:
  "\<exists>s s'. run [Upd ''a'' 10, Upd ''b'' 20] (NewSkipList (\<lambda>k. 1 / 2)) = Some (Inr s) \<and>
     Get s ''c'' = Inr (\<lparr>User = [], Score = 0\<rparr>, False) \<and>
     Remove ''c'' s = Some (Inr s') \<and> s' = s \<and>
     (\<forall>v. Get s' v = Get s v) \<and> (\<forall>n. TopN s' n = TopN s n)"
proof -
  let ?cs = "[Upd ''a'' 10, Upd ''b'' 20]"
  let ?r = "\<lambda>k::nat. (1 / 2 :: real)"
  have "\<exists>s. run ?cs (NewSkipList ?r) = Some (Inr s) \<and>
     Get s ''c'' = Inr (\<lparr>User = [], Score = 0\<rparr>, False)"
    by (simp add: evaluation)
  then obtain s where s: "run ?cs (NewSkipList ?r) = Some (Inr s)"
    and g: "Get s ''c'' = Inr (\<lparr>User = [], Score = 0\<rparr>, False)"
    by (elim exE conjE)
  from Remove_absent_noop [OF g] obtain s'
    where "Remove ''c'' s = Some (Inr s')" "s' = s"
      "\<forall>v. Get s' v = Get s v" "\<forall>n. TopN s' n = TopN s n"
    by (elim exE conjE)
  with s g show ?thesis by (intro exI [of _ s] exI [of _ s'] conjI)
qed

lemma reach_inv:
  "run cs (NewSkipList r) = Some (Inr s) \<Longrightarrow> \<exists>L. sl_inv s L"
  using reach_represents [of cs r s] by (auto simp: represents_def)

lemma sl_inv_top:
  assumes "sl_inv s L"
  shows "lvl s = 1 \<or> nexts (cells s 0) (nat (lvl s - 1)) \<noteq> None"
    and "lvl s \<le> int i \<Longrightarrow> i < 16 \<Longrightarrow> nexts (cells s 0) i = None"
proof -
  from assms have sh: "shape (cells s) L" and l: "1 \<le> lvl s" "lvl s \<le> 16"
    and empty: "\<And>i. nat (lvl s) \<le> i \<Longrightarrow> L i = []"
    and ne: "lvl s = 1 \<or> L (nat (lvl s) - 1) \<noteq> []"
    by (simp_all add: sl_inv_def maxLevel_def)
  show "lvl s = 1 \<or> nexts (cells s 0) (nat (lvl s - 1)) \<noteq> None"
  proof (cases "lvl s = 1")
    case True
    then show ?thesis by simp
  next
    case False
    with ne have "L (nat (lvl s) - 1) \<noteq> []" by simp
    moreover from l have "nat (lvl s) - 1 < 16" by simp
    from shape_path [OF sh this] have "path (cells s) (nat (lvl s) - 1) 0 (L (nat (lvl s) - 1))" .
    ultimately have "nexts (cells s 0) (nat (lvl s) - 1) \<noteq> None"
      by (cases "L (nat (lvl s) - 1)") auto
    moreover have "nat (lvl s) - 1 = nat (lvl s - 1)" by simp
    ultimately show ?thesis by simp
  qed
  show "nexts (cells s 0) i = None" if "lvl s \<le> int i" "i < 16"
  proof -
    from that(1) have "nat (lvl s) \<le> i" by simp
    with empty have "L i = []" by simp
    with shape_path [OF sh that(2)] show ?thesis by simp
  qed
qed

text \<open>
  C8. After any sequence of Update and Remove calls on a fresh list, the max level lies
  between 1 and 16, every level from the max level up is empty at the head, and the
  max level is 1 or the head's forward link at the topmost level is not nil.
\<close>

theorem lvl_is_highest_level_with_content:
  "run cs (NewSkipList r) = Some (Inr s) \<Longrightarrow>
   1 \<le> lvl s \<and> lvl s \<le> 16 \<and>
   (\<exists>h. head s = Some h \<and>
      (lvl s = 1 \<or> nexts (cells s h) (nat (lvl s - 1)) \<noteq> None) \<and>
      (\<forall>i. lvl s \<le> int i \<and> i < 16 \<longrightarrow> nexts (cells s h) i = None))"
proof -
  assume "run cs (NewSkipList r) = Some (Inr s)"
  then obtain L where inv: "sl_inv s L" by (auto dest: reach_inv)
  then have "1 \<le> lvl s" "lvl s \<le> 16" "head s = Some 0"
    by (simp_all add: sl_inv_def maxLevel_def)
  with sl_inv_top [OF inv] show ?thesis by auto
qed

theorem lvl_is_highest_level_with_content_witness:
  "\<exists>s0 s. run [Upd ''a'' 10, Upd ''b'' 20]
             (NewSkipList (\<lambda>k. if k = 0 then 1 / 10 else 1 / 2)) = Some (Inr s0) \<and>
     lvl s0 = 2 \<and>
     run [Upd ''a'' 10, Upd ''b'' 20, Rem ''a'']
             (NewSkipList (\<lambda>k. if k = 0 then 1 / 10 else 1 / 2)) = Some (Inr s) \<and>
     lvl s = 1 \<and>
     (1 \<le> lvl s0 \<and> lvl s0 \<le> 16 \<and>
      (\<exists>h. head s0 = Some h \<and>
         (lvl s0 = 1 \<or> nexts (cells s0 h) (nat (lvl s0 - 1)) \<noteq> None) \<and>
         (\<forall>i. lvl s0 \<le> int i \<and> i < 16 \<longrightarrow> nexts (cells s0 h) i = None))) \<and>
     (1 \<le> lvl s \<and> lvl s \<le> 16 \<and>
      (\<exists>h. head s = Some h \<and>
         (lvl s = 1 \<or> nexts (cells s h) (nat (lvl s - 1)) \<noteq> None) \<and>
         (\<forall>i. lvl s \<le> int i \<and> i < 16 \<longrightarrow> nexts (cells s h) i = None)))"
proof -
  let ?r = "\<lambda>k::nat. if k = 0 then 1 / 10 else (1 / 2 :: real)"
  have "\<exists>s0. run [Upd ''a'' 10, Upd ''b'' 20] (NewSkipList ?r) = Some (Inr s0) \<and> lvl s0 = 2"
    by (simp add: evaluation)
  then obtain s0 where s0: "run [Upd ''a'' 10, Upd ''b'' 20] (NewSkipList ?r) = Some (Inr s0)"
    and l0: "lvl s0 = 2" by (elim exE conjE)
  have "\<exists>s. run [Upd ''a'' 10, Upd ''b'' 20, Rem ''a''] (NewSkipList ?r) = Some (Inr s) \<and>
          lvl s = 1"
    by (simp add: evaluation)
  then obtain s where s: "run [Upd ''a'' 10, Upd ''b'' 20, Rem ''a''] (NewSkipList ?r) = Some (Inr s)"
    and l: "lvl s = 1" by (elim exE conjE)
  note c0 = lvl_is_highest_level_with_content [OF s0]
  note c = lvl_is_highest_level_with_content [OF s]
  show ?thesis
    by (rule exI [of _ s0], rule exI [of _ s])
       (rule conjI [OF s0 conjI [OF l0 conjI [OF s conjI [OF l conjI [OF c0 c]]]]])
qed

text \<open>
  C9. Two runs of the same sequence of calls on fresh lists whose generators yield
  different values both return, and TopN and Get answer the same in the two final
  states.
\<close>

theorem observables_independent_of_rng:
  "\<exists>s1 s2. run cs (NewSkipList r1) = Some (Inr s1) \<and>
     run cs (NewSkipList r2) = Some (Inr s2) \<and>
     (\<forall>n. TopN s1 n = TopN s2 n) \<and> (\<forall>u. Get s1 u = Get s2 u)"
proof -
  from run_total obtain s1 where s1: "run cs (NewSkipList r1) = Some (Inr s1)" by blast
  from run_total obtain s2 where s2: "run cs (NewSkipList r2) = Some (Inr s2)" by blast
  from s1 have rep1: "represents s1 (abs_run cs [])" by (rule reach_represents)
  from s2 have rep2: "represents s2 (abs_run cs [])" by (rule reach_represents)
  have "TopN s1 n = TopN s2 n" for n
    by (simp add: TopN_represents [OF rep1] TopN_represents [OF rep2])
  moreover have "Get s1 u = Get s2 u" for u
    by (simp add: Get_represents [OF rep1] Get_represents [OF rep2])
  ultimately show ?thesis using s1 s2 by blast
qed

theorem observables_independent_of_rng_witness:
  "\<exists>s1 s2. run [Upd ''a'' 10, Upd ''b'' 20, Rem ''a''] (NewSkipList (\<lambda>k. 1 / 2)) = Some (Inr s1) \<and>
     run [Upd ''a'' 10, Upd ''b'' 20, Rem ''a'']
       (NewSkipList (\<lambda>k. if k < 2 then 1 / 8 else 1 / 2)) = Some (Inr s2) \<and>
     lvl s1 = 1 \<and> nalloc s1 = 3 \<and> lvl s2 = 1 \<and>
     (\<forall>n. TopN s1 n = TopN s2 n) \<and> (\<forall>u. Get s1 u = Get s2 u)"
proof -
  let ?cs = "[Upd ''a'' 10, Upd ''b'' 20, Rem ''a'']"
  let ?r1 = "\<lambda>k::nat. (1 / 2 :: real)"
  let ?r2 = "\<lambda>k::nat. if k < 2 then 1 / 8 else (1 / 2 :: real)"
  have "\<exists>s1. run ?cs (NewSkipList ?r1) = Some (Inr s1) \<and> lvl s1 = 1 \<and> nalloc s1 = 3"
    by (simp add: evaluation)
  then obtain t1 where t1: "run ?cs (NewSkipList ?r1) = Some (Inr t1)"
    and a: "lvl t1 = 1" "nalloc t1 = 3" by (elim exE conjE)
  have "\<exists>s2. run ?cs (NewSkipList ?r2) = Some (Inr s2) \<and> lvl s2 = 1"
    by (simp add: evaluation)
  then obtain t2 where t2: "run ?cs (NewSkipList ?r2) = Some (Inr t2)"
    and b: "lvl t2 = 1" by (elim exE conjE)
  from observables_independent_of_rng [of ?cs ?r1 ?r2] obtain s1 s2
    where s1: "run ?cs (NewSkipList ?r1) = Some (Inr s1)"
      and s2: "run ?cs (NewSkipList ?r2) = Some (Inr s2)"
      and obs: "\<forall>n. TopN s1 n = TopN s2 n" "\<forall>u. Get s1 u = Get s2 u"
    by (elim exE conjE)
  from t1 [symmetric] s1 have "Some (Inr t1 :: panic + SkipList) = Some (Inr s1)"
    by (rule trans)
  then have e1: "t1 = s1" by simp
  from t2 [symmetric] s2 have "Some (Inr t2 :: panic + SkipList) = Some (Inr s2)"
    by (rule trans)
  then have e2: "t2 = s2" by simp
  show ?thesis
    by (rule exI [of _ s1], rule exI [of _ s2])
       (rule conjI [OF s1 conjI [OF s2 conjI [OF a(1) [unfolded e1] conjI [OF a(2) [unfolded e1]
          conjI [OF b [unfolded e2] conjI [OF obs]]]]]])
qed

text \<open>
  C5. \<^verbatim>\<open>TopN(math.MaxInt64)\<close>: the capacity asked of \<^verbatim>\<open>make\<close> is out of range, and the
  call panics before the chain is read, whatever the list holds.
\<close>

theorem TopN_MaxInt64_panics:
  "TopN s 9223372036854775807 = Inl MakeSliceCap"
  by (simp add: TopN_def maxAlloc_def entrySize_def)

text \<open>
  What TopN returns where the capacity is in range. In every state reached from a
  fresh list there is one ranked sequence of all entries, strictly sorted and with one
  entry per user, and TopN(n) is empty for n <= 0 and the first n entries of that
  sequence (all of them when n is larger) for every n with 24 * n <= 2 ^ 48.
\<close>

theorem TopN_prefix_of_ranking:
  "run cs (NewSkipList r) = Some (Inr s) \<Longrightarrow>
   \<exists>es. sorted_wrt less_Entry es \<and> distinct (map User es) \<and>
     (\<forall>n. n \<le> 0 \<longrightarrow> TopN s n = Inr []) \<and>
     (\<forall>n. 0 < n \<and> n * 24 \<le> 2 ^ 48 \<longrightarrow> TopN s n = Inr (take (nat n) es)) \<and>
     (\<forall>n. int (length es) < n \<and> n * 24 \<le> 2 ^ 48 \<longrightarrow> TopN s n = Inr es)"
proof -
  assume "run cs (NewSkipList r) = Some (Inr s)"
  then have rep: "represents s (abs_run cs [])" by (rule reach_represents)
  have "TopN s n = Inr []" if "n \<le> 0" for n
    using that by (simp add: TopN_def)
  moreover have "TopN s n = Inr (take (nat n) (abs_run cs []))" if "0 < n \<and> n * 24 \<le> 2 ^ 48" for n
    using that by (simp add: TopN_represents [OF rep] abs_TopN_def maxAlloc_def entrySize_def)
  moreover have "TopN s n = Inr (abs_run cs [])"
    if "int (length (abs_run cs [])) < n \<and> n * 24 \<le> 2 ^ 48" for n
  proof -
    from that have "0 < n" "length (abs_run cs []) \<le> nat n" by linarith+
    with that show ?thesis
      by (simp add: TopN_represents [OF rep] abs_TopN_def maxAlloc_def entrySize_def)
  qed
  ultimately show ?thesis using represents_sorted [OF rep] by blast
qed

theorem TopN_prefix_of_ranking_witness:
  "\<exists>s. run [Upd ''a'' 10, Upd ''b'' 20, Upd ''c'' 15] (NewSkipList (\<lambda>k. 1 / 2)) = Some (Inr s) \<and>
     TopN s 0 = Inr [] \<and>
     TopN s 2 = Inr [\<lparr>User = ''b'', Score = 20\<rparr>, \<lparr>User = ''c'', Score = 15\<rparr>] \<and>
     TopN s 1000 = Inr [\<lparr>User = ''b'', Score = 20\<rparr>, \<lparr>User = ''c'', Score = 15\<rparr>,
                        \<lparr>User = ''a'', Score = 10\<rparr>]"
proof -
  let ?cs = "[Upd ''a'' 10, Upd ''b'' 20, Upd ''c'' 15]"
  let ?r = "\<lambda>k::nat. (1 / 2 :: real)"
  let ?out = "[\<lparr>User = ''b'', Score = 20\<rparr>, \<lparr>User = ''c'', Score = 15\<rparr>,
               \<lparr>User = ''a'', Score = 10\<rparr>]"
  have "\<exists>s. run ?cs (NewSkipList ?r) = Some (Inr s) \<and> TopN s 4 = Inr ?out"
    by (simp add: evaluation)
  then obtain s where s: "run ?cs (NewSkipList ?r) = Some (Inr s)"
    and t4: "TopN s 4 = Inr ?out" by (elim exE conjE)
  from TopN_prefix_of_ranking [OF s] obtain es
    where z: "\<forall>n. n \<le> 0 \<longrightarrow> TopN s n = Inr []"
      and p: "\<forall>n. 0 < n \<and> n * 24 \<le> 2 ^ 48 \<longrightarrow> TopN s n = Inr (take (nat n) es)"
      and a: "\<forall>n. int (length es) < n \<and> n * 24 \<le> 2 ^ 48 \<longrightarrow> TopN s n = Inr es"
    by (elim exE conjE)
  from p [rule_format, of 4] t4 have tk: "take 4 es = ?out" by simp
  then have "length (take 4 es) = 3" by simp
  then have "length es = 3" by (simp add: min_def split: if_splits)
  with tk have es: "es = ?out" by simp
  from z have t0: "TopN s 0 = Inr []" by simp
  from p [rule_format, of 2] have t2: "TopN s 2 = Inr (take 2 ?out)" by (simp add: es)
  from a [rule_format, of 1000] have t1000: "TopN s 1000 = Inr ?out" by (simp add: es)
  from t2 have t2': "TopN s 2 = Inr [\<lparr>User = ''b'', Score = 20\<rparr>, \<lparr>User = ''c'', Score = 15\<rparr>]"
    by simp
  show ?thesis
    by (rule exI [of _ s]) (rule conjI [OF s conjI [OF t0 conjI [OF t2' t1000]]])
qed

text \<open>
  The scenario of the repository's test \<^verbatim>\<open>TestSkipListBasic\<close>, continued as in the
  specification, for every stream of the generator: after Update(a,10), Update(b,20),
  Update(c,15), TopN(3) is [b:20, c:15, a:10]; after Update(a,25), TopN(1) is [a:25];
  after Remove(b), TopN(2) is [a:25, c:15] and Get(b) reports found = false.
\<close>

theorem TestSkipListBasic_every_stream:
  "\<exists>s1 s2 s3.
     run [Upd ''a'' 10, Upd ''b'' 20, Upd ''c'' 15] (NewSkipList r) = Some (Inr s1) \<and>
     TopN s1 3 = Inr [\<lparr>User = ''b'', Score = 20\<rparr>, \<lparr>User = ''c'', Score = 15\<rparr>,
                      \<lparr>User = ''a'', Score = 10\<rparr>] \<and>
     Update ''a'' 25 s1 = Some (Inr s2) \<and>
     TopN s2 1 = Inr [\<lparr>User = ''a'', Score = 25\<rparr>] \<and>
     Remove ''b'' s2 = Some (Inr s3) \<and>
     TopN s3 2 = Inr [\<lparr>User = ''a'', Score = 25\<rparr>, \<lparr>User = ''c'', Score = 15\<rparr>] \<and>
     Get s3 ''b'' = Inr (\<lparr>User = [], Score = 0\<rparr>, False)"
proof -
  let ?cs = "[Upd ''a'' 10, Upd ''b'' 20, Upd ''c'' 15]"
  let ?es1 = "[\<lparr>User = ''b'', Score = 20\<rparr>, \<lparr>User = ''c'', Score = 15\<rparr>,
               \<lparr>User = ''a'', Score = 10\<rparr>]"
  let ?es2 = "[\<lparr>User = ''a'', Score = 25\<rparr>, \<lparr>User = ''b'', Score = 20\<rparr>,
               \<lparr>User = ''c'', Score = 15\<rparr>]"
  let ?es3 = "[\<lparr>User = ''a'', Score = 25\<rparr>, \<lparr>User = ''c'', Score = 15\<rparr>]"
  have a1: "abs_run ?cs [] = ?es1"
    by (simp add: abs_update_def insert_ranked_def less_Entry_def)
  have a2: "abs_update ''a'' 25 ?es1 = ?es2"
    by (simp add: abs_update_def insert_ranked_def less_Entry_def)
  have a3: "abs_remove ''b'' ?es2 = ?es3"
    by (simp add: abs_remove_def)
  from run_total obtain s1 where s1: "run ?cs (NewSkipList r) = Some (Inr s1)" by blast
  from reach_represents [OF s1] have r1: "represents s1 ?es1" by (simp only: a1)
  from Update_represents [OF r1, of "''a''" 25] obtain s2
    where s2: "Update ''a'' 25 s1 = Some (Inr s2)" and r2: "represents s2 ?es2"
    unfolding a2 ok_def by blast
  from Remove_represents [OF r2, of "''b''"] obtain s3
    where s3: "Remove ''b'' s2 = Some (Inr s3)" and r3: "represents s3 ?es3"
    unfolding a3 ok_def by blast
  have t1: "TopN s1 3 = Inr ?es1"
    by (simp add: TopN_represents [OF r1] abs_TopN_def maxAlloc_def entrySize_def)
  have t2: "TopN s2 1 = Inr [\<lparr>User = ''a'', Score = 25\<rparr>]"
    by (simp add: TopN_represents [OF r2] abs_TopN_def maxAlloc_def entrySize_def)
  have t3: "TopN s3 2 = Inr ?es3"
    by (simp add: TopN_represents [OF r3] abs_TopN_def maxAlloc_def entrySize_def)
  have g: "Get s3 ''b'' = Inr (\<lparr>User = [], Score = 0\<rparr>, False)"
    by (simp add: Get_represents [OF r3] abs_Get_def zero_Entry_def)
  show ?thesis
    by (rule exI [of _ s1], rule exI [of _ s2], rule exI [of _ s3])
       (rule conjI [OF s1 conjI [OF t1 conjI [OF s2 conjI [OF t2 conjI [OF s3 conjI [OF t3 g]]]]]])
qed

end
